theory Spec2Isabelle
  imports Main "HOL-Library.Word"
begin

section \<open>Runtime scalar dispatch (cppcore/include/numeric/arrayref.hpp)\<close>

subsection \<open>Tags and scalar types\<close>

text \<open>
  \<^verbatim>\<open>enum class Tag {f32, cf32, f64, cf64, b, i8, i16, i32, i64, u8, u16, u32, u64}\<close>.
  The constructors carry the prefix \<open>Tag_\<close> of the scoped enumeration.
\<close>

datatype Tag =
  Tag_f32 | Tag_cf32 | Tag_f64 | Tag_cf64 | Tag_b
  | Tag_i8 | Tag_i16 | Tag_i32 | Tag_i64
  | Tag_u8 | Tag_u16 | Tag_u32 | Tag_u64

text \<open>
  The C++ scalar types that \<^verbatim>\<open>detail::get_tag\<close> is specialised for. A \<^verbatim>\<open>TypeList<...>\<close>
  of scalar types is a list of these.
\<close>

datatype Scalar =
  Float | ComplexFloat | Double | ComplexDouble | Bool
  | Int8 | Int16 | Int32 | Int64
  | UInt8 | UInt16 | UInt32 | UInt64

fun get_tag :: "Scalar \<Rightarrow> Tag" where
  "get_tag Float = Tag_f32"
| "get_tag ComplexFloat = Tag_cf32"
| "get_tag Double = Tag_f64"
| "get_tag ComplexDouble = Tag_cf64"
| "get_tag Bool = Tag_b"
| "get_tag Int8 = Tag_i8"
| "get_tag Int16 = Tag_i16"
| "get_tag Int32 = Tag_i32"
| "get_tag Int64 = Tag_i64"
| "get_tag UInt8 = Tag_u8"
| "get_tag UInt16 = Tag_u16"
| "get_tag UInt32 = Tag_u32"
| "get_tag UInt64 = Tag_u64"

subsection \<open>Array references\<close>

text \<open>
  \<^verbatim>\<open>BasicArrayRef<is_const>\<close>: the five fields of the struct. The data pointer is an
  address; whether the pointee is const is a compile-time property that leaves the value
  unchanged, so \<^verbatim>\<open>ArrayConstRef\<close> and \<^verbatim>\<open>ArrayRef\<close> share the record. \<^verbatim>\<open>rows\<close> and
  \<^verbatim>\<open>cols\<close> are C++ \<^verbatim>\<open>int\<close>.
\<close>

record BasicArrayRef =
  tag :: Tag
  is_row_major :: bool
  data :: nat
  rows :: "32 word"
  cols :: "32 word"

type_synonym ArrayConstRef = BasicArrayRef
type_synonym ArrayRef = BasicArrayRef

text \<open>\<^verbatim>\<open>std::runtime_error\<close> with its message.\<close>

datatype error = runtime_error string

text \<open>
  \<^verbatim>\<open>VariantArrayConstRef<Scalar, Scalars...>\<close> and \<^verbatim>\<open>VariantArrayRef<Scalar, Scalars...>\<close>
  derive from the array reference and add the static member \<^verbatim>\<open>Types\<close>.
\<close>

record Variant = BasicArrayRef +
  Types :: "Scalar list"

text \<open>\<^verbatim>\<open>std::none_of(first, last, pred)\<close>.\<close>

fun none_of :: "('a \<Rightarrow> bool) \<Rightarrow> 'a list \<Rightarrow> bool" where
  "none_of p [] = True"
| "none_of p (x # xs) = (if p x then False else none_of p xs)"

text \<open>
  The constructor \<^verbatim>\<open>VariantArrayConstRef(ArrayConstRef const& other)\<close>: the base is
  copy-constructed from \<^verbatim>\<open>other\<close>, then the tag is looked up among the possible tags.
\<close>

definition VariantArrayConstRef ::
  "Scalar \<Rightarrow> Scalar list \<Rightarrow> ArrayConstRef \<Rightarrow> error + Variant" where
  "VariantArrayConstRef scalar scalars other =
     (let possible_tags = get_tag scalar # map get_tag scalars;
          is_invalid = none_of (\<lambda>t. tag other = t) possible_tags
      in if is_invalid then Inl (runtime_error ''Invalid VariantArrayConstRef assignment'')
         else Inr (BasicArrayRef.extend other \<lparr>Types = scalar # scalars\<rparr>))"

text \<open>
  The converting constructor \<^verbatim>\<open>VariantArrayConstRef(ArrayRef const& a)\<close> delegates to the
  one above with a fieldwise copy of \<^verbatim>\<open>a\<close>.
\<close>

definition VariantArrayConstRef_from_ArrayRef ::
  "Scalar \<Rightarrow> Scalar list \<Rightarrow> ArrayRef \<Rightarrow> error + Variant" where
  "VariantArrayConstRef_from_ArrayRef scalar scalars a =
     VariantArrayConstRef scalar scalars
       \<lparr>tag = tag a, is_row_major = is_row_major a, data = data a, rows = rows a, cols = cols a\<rparr>"

definition VariantArrayRef ::
  "Scalar \<Rightarrow> Scalar list \<Rightarrow> ArrayRef \<Rightarrow> error + Variant" where
  "VariantArrayRef scalar scalars other =
     (let possible_tags = get_tag scalar # map get_tag scalars;
          is_invalid = none_of (\<lambda>t. tag other = t) possible_tags
      in if is_invalid then Inl (runtime_error ''Invalid VariantArrayRef assignment'')
         else Inr (BasicArrayRef.extend other \<lparr>Types = scalar # scalars\<rparr>))"

text \<open>\<^verbatim>\<open>arrayref(Tag tag, void* data, int size)\<close>: a 1D reference.\<close>

definition arrayref :: "Tag \<Rightarrow> nat \<Rightarrow> 32 word \<Rightarrow> BasicArrayRef" where
  "arrayref t d n = \<lparr>tag = t, is_row_major = True, data = d, rows = 1, cols = n\<rparr>"

text \<open>The common typedefs, as their first scalar and the rest of the pack.\<close>

definition RealArrayRef :: "ArrayRef \<Rightarrow> error + Variant" where
  "RealArrayRef = VariantArrayRef Float [Double]"

definition ComplexArrayRef :: "ArrayRef \<Rightarrow> error + Variant" where
  "ComplexArrayRef = VariantArrayRef Float [Double, ComplexFloat, ComplexDouble]"

definition RealArrayConstRef :: "ArrayConstRef \<Rightarrow> error + Variant" where
  "RealArrayConstRef = VariantArrayConstRef Float [Double]"

definition ComplexArrayConstRef :: "ArrayConstRef \<Rightarrow> error + Variant" where
  "ComplexArrayConstRef = VariantArrayConstRef Float [Double, ComplexFloat, ComplexDouble]"

subsection \<open>Matching\<close>

text \<open>
  \<^verbatim>\<open>MakeContainer<Container<Scalar>>::make\<close> is left to specialisations, so it is the
  parameter \<open>make_container\<close>: the container of scalar type \<open>s\<close> over a reference. The callable
  \<open>lambda\<close> may have effects; it takes the world \<open>'w\<close> and returns its result with the
  new world, so that each invocation shows in the result.

  \<^verbatim>\<open>detail::try_match\<close>: the base case throws, the other case compares the tag with
  the head of the type list.
\<close>

fun try_match ::
  "(Scalar \<Rightarrow> Variant \<Rightarrow> 'c) \<Rightarrow> Variant \<Rightarrow> ('c \<Rightarrow> 'w \<Rightarrow> 'r \<times> 'w) \<Rightarrow> Scalar list
     \<Rightarrow> 'w \<Rightarrow> error + 'r \<times> 'w" where
  "try_match make_container ref lambda [] w = Inl (runtime_error ''A match was not found'')"
| "try_match make_container ref lambda (scalar # tail) w =
     (if tag ref = get_tag scalar then Inr (lambda (make_container scalar ref) w)
      else try_match make_container ref lambda tail w)"

fun try_match2 ::
  "(Scalar \<Rightarrow> Variant \<Rightarrow> 'c1) \<Rightarrow> (Scalar \<Rightarrow> Variant \<Rightarrow> 'c2) \<Rightarrow> Variant \<Rightarrow> Variant
     \<Rightarrow> ('c1 \<Rightarrow> 'c2 \<Rightarrow> 'w \<Rightarrow> 'r \<times> 'w) \<Rightarrow> (Scalar \<times> Scalar) list
     \<Rightarrow> 'w \<Rightarrow> error + 'r \<times> 'w" where
  "try_match2 make_container1 make_container2 ref1 ref2 lambda [] w = Inl (runtime_error ''A match was not found'')"
| "try_match2 make_container1 make_container2 ref1 ref2 lambda ((scalar1, scalar2) # tail) w =
     (if tag ref1 = get_tag scalar1 \<and> tag ref2 = get_tag scalar2
      then Inr (lambda (make_container1 scalar1 ref1) (make_container2 scalar2 ref2) w)
      else try_match2 make_container1 make_container2 ref1 ref2 lambda tail w)"

text \<open>
  Modelled from the spec: \<^verbatim>\<open>num::get_real_t\<close> (numeric/traits.hpp), the real-valued
  precision of a scalar type: the component type of a complex type, the type itself
  otherwise.
\<close>

fun get_real_t :: "Scalar \<Rightarrow> Scalar" where
  "get_real_t ComplexFloat = Float"
| "get_real_t ComplexDouble = Double"
| "get_real_t s = s"

text \<open>\<^verbatim>\<open>detail::IsSamePrecision<TypeList<T1, T2>>::value\<close>.\<close>

fun IsSamePrecision :: "Scalar \<times> Scalar \<Rightarrow> bool" where
  "IsSamePrecision (t1, t2) = (get_real_t t1 = get_real_t t2)"

text \<open>
  Modelled from the spec: \<^verbatim>\<open>tl::Combinations\<close> and \<^verbatim>\<open>tl::Filter\<close> (detail/typelist.hpp),
  the Cartesian product of two type lists as a list of pairs, and the sublist of the
  entries that satisfy a predicate.
\<close>

definition Combinations :: "Scalar list \<Rightarrow> Scalar list \<Rightarrow> (Scalar \<times> Scalar) list" where
  "Combinations l1 l2 = concat (map (\<lambda>t1. map (\<lambda>t2. (t1, t2)) l2) l1)"

definition Filter :: "('a \<Rightarrow> bool) \<Rightarrow> 'a list \<Rightarrow> 'a list" where
  "Filter p l = filter p l"

definition match ::
  "(Scalar \<Rightarrow> Variant \<Rightarrow> 'c) \<Rightarrow> Variant \<Rightarrow> ('c \<Rightarrow> 'w \<Rightarrow> 'r \<times> 'w) \<Rightarrow> 'w \<Rightarrow> error + 'r \<times> 'w" where
  "match make_container ref lambda w = try_match make_container ref lambda (Types ref) w"

definition match2 ::
  "(Scalar \<Rightarrow> Variant \<Rightarrow> 'c1) \<Rightarrow> (Scalar \<Rightarrow> Variant \<Rightarrow> 'c2) \<Rightarrow> Variant \<Rightarrow> Variant
     \<Rightarrow> ('c1 \<Rightarrow> 'c2 \<Rightarrow> 'w \<Rightarrow> 'r \<times> 'w) \<Rightarrow> 'w \<Rightarrow> error + 'r \<times> 'w" where
  "match2 make_container1 make_container2 ref1 ref2 lambda w =
     (let List = Combinations (Types ref1) (Types ref2)
      in try_match2 make_container1 make_container2 ref1 ref2 lambda List w)"

definition match2sp ::
  "(Scalar \<Rightarrow> Variant \<Rightarrow> 'c1) \<Rightarrow> (Scalar \<Rightarrow> Variant \<Rightarrow> 'c2) \<Rightarrow> Variant \<Rightarrow> Variant
     \<Rightarrow> ('c1 \<Rightarrow> 'c2 \<Rightarrow> 'w \<Rightarrow> 'r \<times> 'w) \<Rightarrow> 'w \<Rightarrow> error + 'r \<times> 'w" where
  "match2sp make_container1 make_container2 ref1 ref2 lambda w =
     (let List = Combinations (Types ref1) (Types ref2);
          FilteredList = Filter IsSamePrecision List
      in try_match2 make_container1 make_container2 ref1 ref2 lambda FilteredList w)"

section \<open>Foundation sites (cppcore/src/system/Foundation.cpp)\<close>

subsection \<open>The foundation\<close>

text \<open>
  Of the \<^verbatim>\<open>Foundation\<close> the functions below use the number of sites
  (\<^verbatim>\<open>get_num_sites()\<close>), the validity states (\<^verbatim>\<open>get_states()\<close>, one flag per site,
  as both constructors make them) and the hoppings of the lattice. Sites are named by
  their flat index \<^verbatim>\<open>get_idx()\<close>. The lattice geometry enters through \<open>hoppings\<close>:
  for a site, the hoppings of its sublattice in their order, each as the flat index of
  the site it leads to, or \<open>None\<close> when that site's index lies outside the foundation
  (the test \<^verbatim>\<open>any_of(index < 0) || any_of(index >= size)\<close> of \<^verbatim>\<open>count_neighbors\<close>).
\<close>

record Foundation =
  num_sites :: nat
  is_valid :: "bool list"
  hoppings :: "nat \<Rightarrow> nat option list"

subsection \<open>Hamiltonian indices\<close>

text \<open>
  \<^verbatim>\<open>HamiltonianIndices\<close> holds \<^verbatim>\<open>ArrayX<int> indices\<close> and \<^verbatim>\<open>int num_valid_sites\<close>.
  The counters are C++ \<^verbatim>\<open>int\<close>; they stay between \<open>-1\<close> and the number of sites, itself
  an \<^verbatim>\<open>int\<close>, so they do not wrap and are integers here.
\<close>

record HamiltonianIndices =
  indices :: "int list"
  num_valid_sites :: int

text \<open>
  The loop of the constructor,
  \<^verbatim>\<open>for (auto i = 0; i < foundation.get_num_sites(); ++i)
       if (is_valid[i]) indices[i] = num_valid_sites++;\<close>
  from the loop variable \<open>i\<close> on, with the array and the counter as the state.
\<close>

function HamiltonianIndices_loop ::
  "bool list \<Rightarrow> nat \<Rightarrow> nat \<Rightarrow> int list \<times> int \<Rightarrow> int list \<times> int" where
  "HamiltonianIndices_loop valid n i (ind, nvs) =
     (if i < n
      then HamiltonianIndices_loop valid n (i + 1)
             (if valid ! i then (ind[i := nvs], nvs + 1) else (ind, nvs))
      else (ind, nvs))"
  by pat_completeness auto
termination
  by (relation "measure (\<lambda>(valid, n, i, st). n - i)") auto

declare HamiltonianIndices_loop.simps [simp del]

text \<open>
  The constructor: \<^verbatim>\<open>indices(ArrayX<int>::Constant(num_sites, -1)), num_valid_sites(0)\<close>,
  then the loop.
\<close>

definition HamiltonianIndices :: "Foundation \<Rightarrow> HamiltonianIndices" where
  "HamiltonianIndices foundation =
     (let (ind, nvs) = HamiltonianIndices_loop (is_valid foundation) (num_sites foundation) 0
                         (replicate (num_sites foundation) (- 1), 0)
      in \<lparr>indices = ind, num_valid_sites = nvs\<rparr>)"

subsection \<open>Removing dangling sites\<close>

type_synonym int16_t = "16 word"

text \<open>
  \<^verbatim>\<open>Site::for_each_neighbour\<close> is declared in system/Foundation.hpp. It is taken to call
  its argument for the hoppings of the site that lead to a site inside the foundation,
  in their order, as \<^verbatim>\<open>count_neighbors\<close> counts them; \<open>in_bounds\<close> lists those sites.
\<close>

fun in_bounds :: "nat option list \<Rightarrow> nat list" where
  "in_bounds [] = []"
| "in_bounds (None # hs) = in_bounds hs"
| "in_bounds (Some j # hs) = j # in_bounds hs"

text \<open>
  \<^verbatim>\<open>count_neighbors\<close>: for each site the number of hoppings as an \<^verbatim>\<open>int16_t\<close>, less one
  for each hopping that leads outside.
\<close>

fun count_in_bounds :: "nat option list \<Rightarrow> int16_t \<Rightarrow> int16_t" where
  "count_in_bounds [] num_neighbors = num_neighbors"
| "count_in_bounds (hopping # hs) num_neighbors =
     count_in_bounds hs (if hopping = None then num_neighbors - 1 else num_neighbors)"

definition count_neighbors :: "Foundation \<Rightarrow> int16_t list" where
  "count_neighbors foundation =
     map (\<lambda>site. count_in_bounds (hoppings foundation site)
                    (of_nat (length (hoppings foundation site))))
         [0..<num_sites foundation]"

text \<open>
  The state that \<^verbatim>\<open>clear_neighbors\<close> works on: the validity flags of the foundation
  (\<^verbatim>\<open>Site::is_valid\<close>, \<^verbatim>\<open>Site::set_valid\<close>), the array \<^verbatim>\<open>neighbor_count\<close>, and two
  counters that no branch reads: \<open>calls\<close>, which goes up at every entry of
  \<^verbatim>\<open>clear_neighbors\<close>, whoever calls it, and \<open>recursive\<close>, which goes up where
  \<^verbatim>\<open>clear_neighbors\<close> calls itself.

  \<^verbatim>\<open>clear_neighbors\<close> calls itself from inside the visit of the neighbours, so it is
  defined together with that visit. The first argument is a budget for the depth of the
  recursion: each level of \<^verbatim>\<open>clear_neighbors\<close> takes one, and a call without budget
  gives \<open>None\<close>. \<^verbatim>\<open>min_neighbors\<close> is a C++ \<^verbatim>\<open>int\<close>; the comparison
  \<^verbatim>\<open>neighbor_count[neighbor_idx] < min_neighbors\<close> is one of signed values.
\<close>

type_synonym dangling_state = "bool list \<times> int16_t list \<times> nat \<times> nat"

fun clear_neighbors ::
  "nat \<Rightarrow> (nat \<Rightarrow> nat option list) \<Rightarrow> 32 word \<Rightarrow> nat \<Rightarrow> dangling_state
     \<Rightarrow> dangling_state option"
and for_each_neighbour ::
  "nat \<Rightarrow> (nat \<Rightarrow> nat option list) \<Rightarrow> 32 word \<Rightarrow> nat list \<Rightarrow> dangling_state
     \<Rightarrow> dangling_state option" where
  "clear_neighbors 0 hop min_neighbors site st = None"
| "clear_neighbors (Suc depth) hop min_neighbors site (valid, neighbor_count, calls, recursive) =
     (if neighbor_count ! site = 0 then Some (valid, neighbor_count, Suc calls, recursive)
      else (case for_each_neighbour depth hop min_neighbors (in_bounds (hop site))
                   (valid, neighbor_count, Suc calls, recursive) of
              None \<Rightarrow> None
            | Some (valid', neighbor_count', calls', recursive') \<Rightarrow>
                Some (valid', neighbor_count'[site := 0], calls', recursive')))"
| "for_each_neighbour depth hop min_neighbors [] st = Some st"
| "for_each_neighbour depth hop min_neighbors (neighbor_idx # rest)
       (valid, neighbor_count, calls, recursive) =
     (if \<not> valid ! neighbor_idx
      then for_each_neighbour depth hop min_neighbors rest
             (valid, neighbor_count, calls, recursive)
      else
        (let neighbor_count1 = neighbor_count[neighbor_idx := neighbor_count ! neighbor_idx - 1]
         in if sint (neighbor_count1 ! neighbor_idx) < sint min_neighbors
            then (case clear_neighbors depth hop min_neighbors neighbor_idx
                         (valid[neighbor_idx := False], neighbor_count1, calls,
                          Suc recursive) of
                    None \<Rightarrow> None
                  | Some st' \<Rightarrow> for_each_neighbour depth hop min_neighbors rest st')
            else for_each_neighbour depth hop min_neighbors rest
                   (valid, neighbor_count1, calls, recursive)))"

text \<open>
  \<^verbatim>\<open>remove_dangling\<close>: the loop \<^verbatim>\<open>for (auto& site : foundation)\<close> over the sites in the
  order of their flat index, calling \<^verbatim>\<open>clear_neighbors\<close> for the sites that are not
  valid. The result is the foundation with its new validity flags, and the two counters.
\<close>

fun remove_dangling_loop ::
  "nat \<Rightarrow> (nat \<Rightarrow> nat option list) \<Rightarrow> 32 word \<Rightarrow> nat list \<Rightarrow> dangling_state
     \<Rightarrow> dangling_state option" where
  "remove_dangling_loop depth hop min_neighbors [] st = Some st"
| "remove_dangling_loop depth hop min_neighbors (site # rest)
       (valid, neighbor_count, calls, recursive) =
     (if \<not> valid ! site
      then (case clear_neighbors depth hop min_neighbors site
                   (valid, neighbor_count, calls, recursive) of
              None \<Rightarrow> None
            | Some st' \<Rightarrow> remove_dangling_loop depth hop min_neighbors rest st')
      else remove_dangling_loop depth hop min_neighbors rest
             (valid, neighbor_count, calls, recursive))"

definition remove_dangling ::
  "nat \<Rightarrow> Foundation \<Rightarrow> 32 word \<Rightarrow> (Foundation \<times> nat \<times> nat) option" where
  "remove_dangling depth foundation min_neighbors =
     (let neighbor_count = count_neighbors foundation
      in case remove_dangling_loop depth (hoppings foundation) min_neighbors
                [0..<num_sites foundation] (is_valid foundation, neighbor_count, 0, 0) of
           None \<Rightarrow> None
         | Some (valid', neighbor_count', calls', recursive') \<Rightarrow>
             Some (foundation\<lparr>is_valid := valid'\<rparr>, calls', recursive'))"

section \<open>The KPM engine and its bindings (cppmodule/src/kpm.cpp)\<close>

subsection \<open>Optimized Hamiltonian\<close>

text \<open>
  Modelled from the spec: the sparse Hamiltonian matrix (support/sparse.hpp), of which
  "only its nonzero structure and values matter". The values are floating-point numbers
  and are left out; the structure is the dimension of the square matrix and, for each
  row, the columns of its stored entries.
\<close>

record SparseHamiltonian =
  dimension :: nat
  nonzeros :: "nat \<Rightarrow> nat list"

text \<open>
  The seed indices \<^verbatim>\<open>{i, indices}\<close> that \<^verbatim>\<open>MakeOH\<close> passes to \<^verbatim>\<open>optimize_for\<close>: a row index
  and a list of column indices.
\<close>

record Indices =
  row :: nat
  columns :: "nat list"

text \<open>
  Modelled from the spec: the error taxonomy of the engine, of which the functions here
  raise "InvalidIndex: seed or target index outside matrix bounds".
\<close>

datatype kpm_error = InvalidIndex

text \<open>
  Modelled from the spec: the state of \<^verbatim>\<open>kpm::OptimizedHamiltonian\<close> (KPM.hpp), "the
  permutation (original index to reordered position) and the per-step reachable-size
  sequence"; the reordered matrix holds the rescaled values and is left out.
\<close>

record OptimizedHamiltonianState =
  reorder :: "nat list"
  sizes :: "nat list"

text \<open>
  Modelled from the spec: \<^verbatim>\<open>OptimizedHamiltonian::optimize_for\<close> (KPM.hpp), which
  "reorders rows/columns so that entries reachable from the seed set within k hops of
  the sparsity graph are contiguous", where "the active size grows by at most one sparsity
  shell per recursion step", and rejects a seed index outside the matrix. \<open>add_new\<close>
  appends the indices not yet in the queue, \<open>grow\<close> adds one shell, \<open>reachable\<close> is
  the queue after \<open>k\<close> shells; the sizes are the lengths of these queues for the steps
  \<open>0\<close> to the dimension, after which no shell can add an index. The scaling factors only
  change the values.
\<close>

fun add_new :: "nat list \<Rightarrow> nat list \<Rightarrow> nat list" where
  "add_new queue [] = queue"
| "add_new queue (j # js) = add_new (if j \<in> set queue then queue else queue @ [j]) js"

definition grow :: "SparseHamiltonian \<Rightarrow> nat list \<Rightarrow> nat list" where
  "grow m queue =
     add_new queue (filter (\<lambda>j. j < dimension m) (concat (map (nonzeros m) queue)))"

fun reachable :: "SparseHamiltonian \<Rightarrow> nat list \<Rightarrow> nat \<Rightarrow> nat list" where
  "reachable m seeds 0 = add_new [] seeds"
| "reachable m seeds (Suc k) = grow m (reachable m seeds k)"

definition optimize_for ::
  "SparseHamiltonian \<Rightarrow> Indices \<Rightarrow> 's \<Rightarrow> kpm_error + OptimizedHamiltonianState" where
  "optimize_for m seed_indices scaling =
     (let seeds = row seed_indices # columns seed_indices
      in if list_ex (\<lambda>s. dimension m \<le> s) seeds then Inl InvalidIndex
         else Inr \<lparr>reorder = add_new (reachable m seeds (dimension m)) [0..<dimension m],
                   sizes = map (\<lambda>k. length (reachable m seeds k)) [0..<Suc (dimension m)]\<rparr>)"

text \<open>
  \<^verbatim>\<open>PyOptHam::MakeOH\<close>: all the indices \<^verbatim>\<open>0 .. rows-1\<close> (\<^verbatim>\<open>std::iota\<close>) as columns, the
  scaling factors of the bounds, and \<^verbatim>\<open>optimize_for\<close>. \<^verbatim>\<open>PyOptHam::ReturnSizes\<close> reads
  the sizes.
\<close>

definition MakeOH :: "nat \<Rightarrow> SparseHamiltonian \<Rightarrow> 's \<Rightarrow> kpm_error + OptimizedHamiltonianState" where
  "MakeOH i m scaling_factors =
     (let indices = [0..<dimension m]
      in optimize_for m \<lparr>row = i, columns = indices\<rparr> scaling_factors)"

definition ReturnSizes :: "OptimizedHamiltonianState \<Rightarrow> nat list" where
  "ReturnSizes oh = sizes oh"

subsection \<open>The engine\<close>

text \<open>
  Modelled from the spec: the numeric stages of the pipeline (KPM.hpp), whose results
  are floating-point arrays: the bounds estimate of a matrix, the optimized Hamiltonian
  for a seed index set and scaling, the resolution of a request to matrix indices by the
  geometry, and moments, kernel and reconstruction together. They are parameters.
\<close>

record ('m, 'b, 'o, 'q, 'r) numerics =
  estimate :: "'m \<Rightarrow> 'b"
  optimize :: "'m \<Rightarrow> Indices \<Rightarrow> 'b \<Rightarrow> 'o"
  resolve :: "'m \<Rightarrow> 'q \<Rightarrow> Indices"
  reconstruct :: "'o \<Rightarrow> 'q \<Rightarrow> 'r"

text \<open>
  Modelled from the spec: the class \<^verbatim>\<open>KPM\<close> (KPM.hpp) as the orchestrator: the bound
  matrix, the bounds "computed lazily on first use and cached", the optimized
  Hamiltonian states cached "keyed by the exact seed-index set", and the number of
  states built so far. \<^verbatim>\<open>make_kpm\<close> binds a model, as the binding of \<^verbatim>\<open>wrap_kpm_strategy\<close>
  does.
\<close>

record ('m, 'b, 'o) KPM =
  model :: 'm
  bounds :: "'b option"
  optimized :: "(Indices \<times> 'o) list"
  builds :: nat

definition make_kpm :: "'m \<Rightarrow> ('m, 'b, 'o) KPM" where
  "make_kpm m = \<lparr>model = m, bounds = None, optimized = [], builds = 0\<rparr>"

text \<open>
  Modelled from the spec: \<^verbatim>\<open>KPM::get_model\<close> and \<^verbatim>\<open>KPM::set_model\<close> (KPM.hpp), the
  accessors of the property \<^verbatim>\<open>model\<close>: "set/replace matrix (invalidates all cached
  OptimizedHamiltonian states and Bounds)".
\<close>

definition get_model :: "('m, 'b, 'o) KPM \<Rightarrow> 'm" where
  "get_model kpm = model kpm"

definition set_model :: "('m, 'b, 'o) KPM \<Rightarrow> 'm \<Rightarrow> ('m, 'b, 'o) KPM" where
  "set_model kpm new_model = kpm\<lparr>model := new_model, bounds := None, optimized := []\<rparr>"

text \<open>
  Modelled from the spec: \<^verbatim>\<open>KPM::calc_ldos\<close> (KPM.hpp): the bounds are taken from the
  cache or estimated, the request is resolved to its seed indices, "a cache hit returns
  the previously built state without recomputation", a miss builds and caches the
  state, and the result is reconstructed from the state.
\<close>

definition calc_ldos ::
  "('m, 'b, 'o, 'q, 'r) numerics \<Rightarrow> ('m, 'b, 'o) KPM \<Rightarrow> 'q \<Rightarrow> 'r \<times> ('m, 'b, 'o) KPM" where
  "calc_ldos N kpm q =
     (let m = model kpm;
          b = (case bounds kpm of Some b \<Rightarrow> b | None \<Rightarrow> estimate N m);
          idx = resolve N m q
      in case map_of (optimized kpm) idx of
           Some oh \<Rightarrow> (reconstruct N oh q, kpm\<lparr>bounds := Some b\<rparr>)
         | None \<Rightarrow>
             (let oh = optimize N m idx b
              in (reconstruct N oh q,
                  kpm\<lparr>bounds := Some b, optimized := (idx, oh) # optimized kpm,
                      builds := Suc (builds kpm)\<rparr>)))"

text \<open>
  The cached values are those of the bound matrix: "a Bounds instance is valid only for
  the matrix it was computed from", and so is an optimized state.
\<close>

definition cache_valid :: "('m, 'b, 'o, 'q, 'r) numerics \<Rightarrow> ('m, 'b, 'o) KPM \<Rightarrow> bool" where
  "cache_valid N kpm =
     ((bounds kpm = None \<or> bounds kpm = Some (estimate N (model kpm)))
      \<and> (\<forall>(idx, oh)\<in>set (optimized kpm).
            oh = optimize N (model kpm) idx (estimate N (model kpm))))"

subsection \<open>Deferred requests\<close>

text \<open>
  The binding \<^verbatim>\<open>deferred_ldos\<close>:
  \<^verbatim>\<open>auto& kpm = self.cast<KPM&>();
   return Deferred<ArrayXd>{self,
       [=, &kpm] { return kpm.calc_ldos(energy, broadening, position, sublattice); }};\<close>
  \<^verbatim>\<open>self\<close> is a reference to the engine object; the objects live in a heap, a function
  from addresses to engines. The closure captures the four arguments by value and the
  engine by reference, so it reads the engine from the heap when it runs, and stores
  the engine that \<^verbatim>\<open>calc_ldos\<close> leaves. \<^verbatim>\<open>KPM::calc_ldos\<close> is the parameter \<open>calc\<close>.
  A \<^verbatim>\<open>Deferred\<close> holds the object it was made from and the closure.
\<close>

record ('h, 'r) Deferred =
  solver :: nat
  compute :: "'h \<Rightarrow> 'r \<times> 'h"

definition deferred_ldos ::
  "('k \<Rightarrow> 'e \<Rightarrow> 'w \<Rightarrow> 'p \<Rightarrow> string \<Rightarrow> 'r \<times> 'k) \<Rightarrow> nat \<Rightarrow> 'e \<Rightarrow> 'w \<Rightarrow> 'p \<Rightarrow> string
     \<Rightarrow> (nat \<Rightarrow> 'k, 'r) Deferred" where
  "deferred_ldos calc self energy broadening position sublattice =
     \<lparr>solver = self,
      compute = (\<lambda>heap. let (result, kpm') = calc (heap self) energy broadening position sublattice
                        in (result, heap(self := kpm')))\<rparr>"

text \<open>
  An instance of the numeric stages in which every stage hands the matrix on, so that
  the result of a computation is the matrix it was computed from; matrices are numbers.
  \<open>readout_ldos\<close> is \<open>calc_ldos\<close> with these stages and the four arguments of the
  binding.
\<close>

definition readout :: "(nat, nat, nat, 'q, nat) numerics" where
  "readout = \<lparr>estimate = (\<lambda>m. m), optimize = (\<lambda>m idx b. m),
              resolve = (\<lambda>m q. \<lparr>row = 0, columns = []\<rparr>), reconstruct = (\<lambda>oh q. oh)\<rparr>"

definition readout_ldos ::
  "(nat, nat, nat) KPM \<Rightarrow> 'e \<Rightarrow> 'w \<Rightarrow> 'p \<Rightarrow> string \<Rightarrow> nat \<times> (nat, nat, nat) KPM" where
  "readout_ldos kpm energy broadening position sublattice =
     calc_ldos readout kpm (energy, broadening, position, sublattice)"

section \<open>Notions used in the statements\<close>

text \<open>The number of valid sites before site \<open>i\<close>, and the number of valid sites.\<close>

definition rank :: "bool list \<Rightarrow> nat \<Rightarrow> nat" where
  "rank valid i = length (filter (\<lambda>b. b) (take i valid))"

definition nvalid :: "bool list \<Rightarrow> nat" where
  "nvalid valid = length (filter (\<lambda>b. b) valid)"

text \<open>The neighbours that are visited lie inside the foundation.\<close>

definition neighbours_in_range :: "nat \<Rightarrow> (nat \<Rightarrow> nat option list) \<Rightarrow> bool" where
  "neighbours_in_range n hop = (\<forall>site<n. \<forall>j\<in>set (in_bounds (hop site)). j < n)"

text \<open>
  A run from a state returns: it gives a state with as many flags, no more valid sites,
  one more recursive call for each site that is no longer valid, and as many more calls
  as these and the \<open>t\<close> calls that are not recursive.
\<close>

definition returns :: "nat \<Rightarrow> nat \<Rightarrow> dangling_state \<Rightarrow> dangling_state option \<Rightarrow> bool" where
  "returns n t st res = (case st of (valid, neighbor_count, calls, recursive) \<Rightarrow>
     (\<exists>valid' neighbor_count' calls' recursive'.
        res = Some (valid', neighbor_count', calls', recursive')
        \<and> length valid' = n \<and> nvalid valid' \<le> nvalid valid
        \<and> recursive' = recursive + (nvalid valid - nvalid valid')
        \<and> calls' = calls + t + (nvalid valid - nvalid valid')))"

section \<open>Properties of the scalar dispatch\<close>

subsection \<open>Auxiliary facts\<close>

lemma none_of_iff: "none_of p xs \<longleftrightarrow> (\<forall>x\<in>set xs. \<not> p x)"
  by (induction xs) auto

lemma try_match2_find:
  "try_match2 mk1 mk2 ref1 ref2 lambda ps w =
     (case find (\<lambda>(s1, s2). tag ref1 = get_tag s1 \<and> tag ref2 = get_tag s2) ps of
        None \<Rightarrow> Inl (runtime_error ''A match was not found'')
      | Some (s1, s2) \<Rightarrow> Inr (lambda (mk1 s1 ref1) (mk2 s2 ref2) w))"
proof (induction ps)
  case Nil
  show ?case by simp
next
  case (Cons p ps)
  obtain a b where p: "p = (a, b)" by (cases p)
  show ?case unfolding p using Cons.IH by simp
qed

lemma set_Combinations: "set (Combinations l1 l2) = set l1 \<times> set l2"
  by (auto simp: Combinations_def)

lemma try_match_split:
  "tag ref \<in> get_tag ` set ts \<Longrightarrow>
   \<exists>pre s post. ts = pre @ s # post \<and> get_tag s = tag ref \<and>
      (\<forall>t\<in>set pre. get_tag t \<noteq> tag ref) \<and>
      try_match mk ref lambda ts w = Inr (lambda (mk s ref) w)"
proof (induction ts)
  case Nil
  then show ?case by simp
next
  case (Cons a ts)
  show ?case
  proof (cases "tag ref = get_tag a")
    case True
    then have "a # ts = [] @ a # ts \<and> get_tag a = tag ref \<and>
      (\<forall>t\<in>set []. get_tag t \<noteq> tag ref) \<and>
      try_match mk ref lambda (a # ts) w = Inr (lambda (mk a ref) w)" by simp
    then show ?thesis by blast
  next
    case False
    with Cons.prems have "tag ref \<in> get_tag ` set ts" by auto
    from Cons.IH [OF this] obtain pre s post where
      h: "ts = pre @ s # post" "get_tag s = tag ref" "\<forall>t\<in>set pre. get_tag t \<noteq> tag ref"
         "try_match mk ref lambda ts w = Inr (lambda (mk s ref) w)" by blast
    from h False have "a # ts = (a # pre) @ s # post \<and> get_tag s = tag ref \<and>
      (\<forall>t\<in>set (a # pre). get_tag t \<noteq> tag ref) \<and>
      try_match mk ref lambda (a # ts) w = Inr (lambda (mk s ref) w)" by auto
    then show ?thesis by blast
  qed
qed

lemma inj_get_tag: "get_tag s = get_tag t \<Longrightarrow> s = t"
  by (cases s; cases t; simp)


lemma try_match_Inl_iff:
  "(try_match mk ref lambda ts w = Inl (runtime_error ''A match was not found''))
     = (tag ref \<notin> get_tag ` set ts)"
  by (induction ts) auto

lemma try_match_Inr_iff:
  "(\<exists>r. try_match mk ref lambda ts w = Inr r) = (tag ref \<in> get_tag ` set ts)"
  by (induction ts) auto

lemma try_match2_Inl_iff:
  "(try_match2 mk1 mk2 ref1 ref2 lambda ps w = Inl (runtime_error ''A match was not found''))
     = ((tag ref1, tag ref2) \<notin> (\<lambda>(s1, s2). (get_tag s1, get_tag s2)) ` set ps)"
proof (induction ps)
  case Nil
  show ?case by simp
next
  case (Cons p ps)
  obtain a b where p: "p = (a, b)" by (cases p)
  show ?case unfolding p using Cons.IH by auto
qed

lemma try_match2_Inr_iff:
  "(\<exists>r. try_match2 mk1 mk2 ref1 ref2 lambda ps w = Inr r)
     = ((tag ref1, tag ref2) \<in> (\<lambda>(s1, s2). (get_tag s1, get_tag s2)) ` set ps)"
proof (induction ps)
  case Nil
  show ?case by simp
next
  case (Cons p ps)
  obtain a b where p: "p = (a, b)" by (cases p)
  show ?case unfolding p using Cons.IH by auto
qed

lemma image_tags_Combinations:
  "(\<lambda>(s1, s2). (get_tag s1, get_tag s2)) ` set (Combinations l1 l2)
     = (get_tag ` set l1) \<times> (get_tag ` set l2)"
  by (auto simp: set_Combinations)

lemma try_match2_unique:
  assumes "tag ref1 = get_tag s1" "tag ref2 = get_tag s2"
  shows "try_match2 mk1 mk2 ref1 ref2 lambda ps w =
     (if (s1, s2) \<in> set ps then Inr (lambda (mk1 s1 ref1) (mk2 s2 ref2) w)
      else Inl (runtime_error ''A match was not found''))"
proof (induction ps)
  case Nil
  show ?case by simp
next
  case (Cons p ps)
  obtain a b where p: "p = (a, b)" by (cases p)
  show ?case
  proof (cases "tag ref1 = get_tag a \<and> tag ref2 = get_tag b")
    case True
    with assms have "a = s1" "b = s2" by (simp_all add: inj_get_tag)
    with True show ?thesis unfolding p by simp
  next
    case False
    with assms have "(a, b) \<noteq> (s1, s2)" by auto
    with False Cons.IH show ?thesis unfolding p by auto
  qed
qed

subsection \<open>Dispatch: matching and construction\<close>

text \<open>
  Claim C1. For a variant array reference whose tag is the tag of one of its declared
  scalar types, \<open>match\<close> returns the result of one invocation of the operation on the
  container of the first scalar type of the declared list whose tag is the reference's
  tag: the declared list splits into a prefix without a matching tag, that scalar type
  and a rest, and the result is the operation applied once, to that container and the
  initial world. With an operation that counts its invocations the count is 1.
\<close>

theorem match_invokes_first_match_once:
  assumes "tag ref \<in> get_tag ` set (Types ref)"
  shows "\<exists>pre s post. Types ref = pre @ s # post \<and> get_tag s = tag ref \<and>
           (\<forall>t\<in>set pre. get_tag t \<noteq> tag ref) \<and>
           match mk ref lambda w = Inr (lambda (mk s ref) w) \<and>
           match mk ref (\<lambda>c n. (f c, Suc n)) (0::nat) = Inr (f (mk s ref), 1)"
proof -
  from try_match_split [OF assms, of mk lambda w] obtain pre s post where
    h: "Types ref = pre @ s # post" "get_tag s = tag ref" "\<forall>t\<in>set pre. get_tag t \<noteq> tag ref"
       "try_match mk ref lambda (Types ref) w = Inr (lambda (mk s ref) w)" by blast
  from try_match_split [OF assms, of mk "\<lambda>c n. (f c, Suc n)" "0::nat"] obtain pre' s' post' where
    h': "Types ref = pre' @ s' # post'" "get_tag s' = tag ref"
        "try_match mk ref (\<lambda>c n. (f c, Suc n)) (Types ref) (0::nat) = Inr (f (mk s' ref), Suc 0)"
    by blast
  from h(2) h'(2) have "s' = s" by (simp add: inj_get_tag)
  with h h' show ?thesis unfolding match_def by auto
qed

theorem match_invokes_first_match_once_witness:
  "tag \<lparr>tag = Tag_f64, is_row_major = True, data = 0, rows = 1, cols = 3,
        Types = [Float, Double, ComplexFloat, ComplexDouble]\<rparr>
     \<in> get_tag ` set [Float, Double, ComplexFloat, ComplexDouble]
   \<and> match (\<lambda>s r. (s, data r))
       \<lparr>tag = Tag_f64, is_row_major = True, data = 0, rows = 1, cols = 3,
        Types = [Float, Double, ComplexFloat, ComplexDouble]\<rparr>
       (\<lambda>c n. (c, Suc n)) (0::nat) = Inr ((Double, 0), 1)"
proof -
  let ?v = "\<lparr>tag = Tag_f64, is_row_major = True, data = 0::nat, rows = 1, cols = 3,
        Types = [Float, Double, ComplexFloat, ComplexDouble]\<rparr>"
  have h: "tag ?v \<in> get_tag ` set (Types ?v)" by simp
  from match_invokes_first_match_once [OF h, of "\<lambda>s r. (s, data r)" "\<lambda>c n. (c, Suc n)" 0 "\<lambda>c. c"]
  obtain s where "get_tag s = Tag_f64"
    "match (\<lambda>s r. (s, data r)) ?v (\<lambda>c n. (c, Suc n)) (0::nat) = Inr ((s, 0), 1)"
    by auto
  moreover from this(1) have "s = Double" by (cases s) simp_all
  ultimately show ?thesis by simp
qed

text \<open>
  Claim C3. The one-argument dispatch ends in the no-match runtime error exactly when
  the reference's tag is the tag of no scalar type of the declared list, and returns a
  result of the operation exactly when it is the tag of one. The two-argument dispatch
  \<open>try_match2\<close> ends in the no-match error exactly when no pair of the pair list has
  the two tags of the references, and returns a result exactly when one has; for
  \<open>match2\<close>, whose pair list holds all combinations, that is when one of the two tags is
  outside its declared list, and for \<open>match2sp\<close> the pair list is the filtered one.
\<close>

theorem no_match_error_iff_tag_outside:
  "(match mk ref lambda w = Inl (runtime_error ''A match was not found''))
      = (tag ref \<notin> get_tag ` set (Types ref))
   \<and> (\<exists>r. match mk ref lambda w = Inr r) = (tag ref \<in> get_tag ` set (Types ref))
   \<and> (try_match2 mk1 mk2 ref1 ref2 lambda2 ps w = Inl (runtime_error ''A match was not found''))
      = ((tag ref1, tag ref2) \<notin> (\<lambda>(s1, s2). (get_tag s1, get_tag s2)) ` set ps)
   \<and> (\<exists>r. try_match2 mk1 mk2 ref1 ref2 lambda2 ps w = Inr r)
      = ((tag ref1, tag ref2) \<in> (\<lambda>(s1, s2). (get_tag s1, get_tag s2)) ` set ps)
   \<and> (match2 mk1 mk2 ref1 ref2 lambda2 w = Inl (runtime_error ''A match was not found''))
      = (tag ref1 \<notin> get_tag ` set (Types ref1) \<or> tag ref2 \<notin> get_tag ` set (Types ref2))
   \<and> (\<exists>r. match2 mk1 mk2 ref1 ref2 lambda2 w = Inr r)
      = (tag ref1 \<in> get_tag ` set (Types ref1) \<and> tag ref2 \<in> get_tag ` set (Types ref2))
   \<and> (match2sp mk1 mk2 ref1 ref2 lambda2 w = Inl (runtime_error ''A match was not found''))
      = ((tag ref1, tag ref2) \<notin> (\<lambda>(s1, s2). (get_tag s1, get_tag s2)) `
            set (Filter IsSamePrecision (Combinations (Types ref1) (Types ref2))))
   \<and> (\<exists>r. match2sp mk1 mk2 ref1 ref2 lambda2 w = Inr r)
      = ((tag ref1, tag ref2) \<in> (\<lambda>(s1, s2). (get_tag s1, get_tag s2)) `
            set (Filter IsSamePrecision (Combinations (Types ref1) (Types ref2))))"
proof -
  have m2: "match2 mk1 mk2 ref1 ref2 lambda2 w
      = try_match2 mk1 mk2 ref1 ref2 lambda2 (Combinations (Types ref1) (Types ref2)) w"
    by (simp add: match2_def)
  have a: "(match2 mk1 mk2 ref1 ref2 lambda2 w = Inl (runtime_error ''A match was not found''))
      = (tag ref1 \<notin> get_tag ` set (Types ref1) \<or> tag ref2 \<notin> get_tag ` set (Types ref2))"
    unfolding m2 try_match2_Inl_iff image_tags_Combinations by blast
  have b: "(\<exists>r. match2 mk1 mk2 ref1 ref2 lambda2 w = Inr r)
      = (tag ref1 \<in> get_tag ` set (Types ref1) \<and> tag ref2 \<in> get_tag ` set (Types ref2))"
    unfolding m2 try_match2_Inr_iff image_tags_Combinations by blast
  have sp: "match2sp mk1 mk2 ref1 ref2 lambda2 w
      = try_match2 mk1 mk2 ref1 ref2 lambda2
          (Filter IsSamePrecision (Combinations (Types ref1) (Types ref2))) w"
    by (simp add: match2sp_def)
  have c: "(match2sp mk1 mk2 ref1 ref2 lambda2 w = Inl (runtime_error ''A match was not found''))
      = ((tag ref1, tag ref2) \<notin> (\<lambda>(s1, s2). (get_tag s1, get_tag s2)) `
            set (Filter IsSamePrecision (Combinations (Types ref1) (Types ref2))))"
    unfolding sp by (rule try_match2_Inl_iff)
  have d: "(\<exists>r. match2sp mk1 mk2 ref1 ref2 lambda2 w = Inr r)
      = ((tag ref1, tag ref2) \<in> (\<lambda>(s1, s2). (get_tag s1, get_tag s2)) `
            set (Filter IsSamePrecision (Combinations (Types ref1) (Types ref2))))"
    unfolding sp by (rule try_match2_Inr_iff)
  show ?thesis
    unfolding match_def try_match_Inl_iff try_match_Inr_iff try_match2_Inl_iff try_match2_Inr_iff
    using a b c d by simp
qed

theorem no_match_error_iff_tag_outside_witness:
  "match (\<lambda>s r. s)
       \<lparr>tag = Tag_i32, is_row_major = True, data = 0, rows = 1, cols = 3, Types = [Float, Double]\<rparr>
       (\<lambda>c n. (c, Suc n)) (0::nat) = Inl (runtime_error ''A match was not found'')
   \<and> (\<exists>r. match (\<lambda>s r. s)
       \<lparr>tag = Tag_f64, is_row_major = True, data = 0, rows = 1, cols = 3, Types = [Float, Double]\<rparr>
       (\<lambda>c n. (c, Suc n)) (0::nat) = Inr r)"
proof -
  let ?u = "\<lparr>tag = Tag_i32, is_row_major = True, data = 0::nat, rows = 1, cols = 3,
             Types = [Float, Double]\<rparr>"
  let ?v = "\<lparr>tag = Tag_f64, is_row_major = True, data = 0::nat, rows = 1, cols = 3,
             Types = [Float, Double]\<rparr>"
  have "(match (\<lambda>s r. s) ?u (\<lambda>c n. (c, Suc n)) (0::nat)
           = Inl (runtime_error ''A match was not found''))
        = (tag ?u \<notin> get_tag ` set (Types ?u))"
    by (rule no_match_error_iff_tag_outside [THEN conjunct1])
  then have a: "match (\<lambda>s r. s) ?u (\<lambda>c n. (c, Suc n)) (0::nat)
           = Inl (runtime_error ''A match was not found'')"
    by simp
  have "(\<exists>r. match (\<lambda>s r. s) ?v (\<lambda>c n. (c, Suc n)) (0::nat) = Inr r)
        = (tag ?v \<in> get_tag ` set (Types ?v))"
    by (rule no_match_error_iff_tag_outside [THEN conjunct2, THEN conjunct1])
  then have b: "\<exists>r. match (\<lambda>s r. s) ?v (\<lambda>c n. (c, Suc n)) (0::nat) = Inr r"
    by simp
  from a b show ?thesis by blast
qed

text \<open>
  Claim C4. Each of the three constructors (\<open>VariantArrayConstRef\<close> from a const
  reference, \<open>VariantArrayConstRef\<close> from a mutable reference, \<open>VariantArrayRef\<close>)
  throws its type-mismatch runtime error when the tag of the source is outside the
  tags of the declared scalar types, and otherwise yields a view with the tag,
  row-major flag, data handle, row count and column count of the source.
\<close>

theorem variant_construction_checks_tag:
  "VariantArrayConstRef scalar scalars other =
     (if tag other \<in> get_tag ` set (scalar # scalars)
      then Inr \<lparr>tag = tag other, is_row_major = is_row_major other, data = data other,
                rows = rows other, cols = cols other, Types = scalar # scalars\<rparr>
      else Inl (runtime_error ''Invalid VariantArrayConstRef assignment''))
   \<and> VariantArrayConstRef_from_ArrayRef scalar scalars other =
     (if tag other \<in> get_tag ` set (scalar # scalars)
      then Inr \<lparr>tag = tag other, is_row_major = is_row_major other, data = data other,
                rows = rows other, cols = cols other, Types = scalar # scalars\<rparr>
      else Inl (runtime_error ''Invalid VariantArrayConstRef assignment''))
   \<and> VariantArrayRef scalar scalars other =
     (if tag other \<in> get_tag ` set (scalar # scalars)
      then Inr \<lparr>tag = tag other, is_row_major = is_row_major other, data = data other,
                rows = rows other, cols = cols other, Types = scalar # scalars\<rparr>
      else Inl (runtime_error ''Invalid VariantArrayRef assignment''))"
proof -
  have n: "\<And>x. none_of (\<lambda>t. tag x = t) (get_tag scalar # map get_tag scalars)
             = (tag (x::BasicArrayRef) \<notin> get_tag ` set (scalar # scalars))"
    unfolding none_of_iff by auto
  have e: "\<And>x. BasicArrayRef.extend x \<lparr>Types = scalar # scalars\<rparr> =
      \<lparr>tag = tag x, is_row_major = is_row_major x, data = data x,
                rows = rows x, cols = cols x, Types = scalar # scalars\<rparr>"
    subgoal for x by (cases x) (simp add: BasicArrayRef.extend_def)
    done
  have 1: "\<And>x. VariantArrayConstRef scalar scalars x =
     (if tag x \<in> get_tag ` set (scalar # scalars)
      then Inr \<lparr>tag = tag x, is_row_major = is_row_major x, data = data x,
                rows = rows x, cols = cols x, Types = scalar # scalars\<rparr>
      else Inl (runtime_error ''Invalid VariantArrayConstRef assignment''))"
    unfolding VariantArrayConstRef_def Let_def n e by simp
  have 2: "VariantArrayConstRef_from_ArrayRef scalar scalars other =
     (if tag other \<in> get_tag ` set (scalar # scalars)
      then Inr \<lparr>tag = tag other, is_row_major = is_row_major other, data = data other,
                rows = rows other, cols = cols other, Types = scalar # scalars\<rparr>
      else Inl (runtime_error ''Invalid VariantArrayConstRef assignment''))"
    unfolding VariantArrayConstRef_from_ArrayRef_def 1 by simp
  have 3: "VariantArrayRef scalar scalars other =
     (if tag other \<in> get_tag ` set (scalar # scalars)
      then Inr \<lparr>tag = tag other, is_row_major = is_row_major other, data = data other,
                rows = rows other, cols = cols other, Types = scalar # scalars\<rparr>
      else Inl (runtime_error ''Invalid VariantArrayRef assignment''))"
    unfolding VariantArrayRef_def Let_def n e by simp
  from 1 [of other] 2 3 show ?thesis by blast
qed

text \<open>
  Claim C5. \<open>match2\<close> searches the list of all combinations of the two declared
  type lists, whose entries are exactly the Cartesian product, and invokes the operation
  on the first pair whose two tags are the tags of the two references; \<open>match2sp\<close>
  does the same over the pairs of that list whose scalar types have the same real
  precision, and only those. As a tag names one scalar type, the pair that is found does
  not depend on the order of the list: for declared scalar types with the tags of the two
  references, \<open>match2\<close> invokes the operation on their containers, and \<open>match2sp\<close>
  does so when the two have the same real precision and raises the no-match error
  otherwise.
\<close>

theorem match2_cartesian_match2sp_same_precision:
  "set (Combinations (Types ref1) (Types ref2)) = set (Types ref1) \<times> set (Types ref2)
   \<and> match2 mk1 mk2 ref1 ref2 lambda w =
       (case find (\<lambda>(s1, s2). tag ref1 = get_tag s1 \<and> tag ref2 = get_tag s2)
               (Combinations (Types ref1) (Types ref2)) of
          None \<Rightarrow> Inl (runtime_error ''A match was not found'')
        | Some (s1, s2) \<Rightarrow> Inr (lambda (mk1 s1 ref1) (mk2 s2 ref2) w))
   \<and> set (Filter IsSamePrecision (Combinations (Types ref1) (Types ref2)))
       = {(s1, s2). s1 \<in> set (Types ref1) \<and> s2 \<in> set (Types ref2)
                    \<and> get_real_t s1 = get_real_t s2}
   \<and> match2sp mk1 mk2 ref1 ref2 lambda w =
       (case find (\<lambda>(s1, s2). tag ref1 = get_tag s1 \<and> tag ref2 = get_tag s2)
               (Filter IsSamePrecision (Combinations (Types ref1) (Types ref2))) of
          None \<Rightarrow> Inl (runtime_error ''A match was not found'')
        | Some (s1, s2) \<Rightarrow> Inr (lambda (mk1 s1 ref1) (mk2 s2 ref2) w))
   \<and> (\<forall>s1 s2. s1 \<in> set (Types ref1) \<and> s2 \<in> set (Types ref2)
          \<and> tag ref1 = get_tag s1 \<and> tag ref2 = get_tag s2 \<longrightarrow>
        match2 mk1 mk2 ref1 ref2 lambda w = Inr (lambda (mk1 s1 ref1) (mk2 s2 ref2) w)
        \<and> match2sp mk1 mk2 ref1 ref2 lambda w =
            (if get_real_t s1 = get_real_t s2
             then Inr (lambda (mk1 s1 ref1) (mk2 s2 ref2) w)
             else Inl (runtime_error ''A match was not found'')))"
proof -
  have f: "set (Filter IsSamePrecision (Combinations (Types ref1) (Types ref2)))
       = {(s1, s2). s1 \<in> set (Types ref1) \<and> s2 \<in> set (Types ref2)
                    \<and> get_real_t s1 = get_real_t s2}"
    by (auto simp: Filter_def set_Combinations)
  have u: "\<forall>s1 s2. s1 \<in> set (Types ref1) \<and> s2 \<in> set (Types ref2)
          \<and> tag ref1 = get_tag s1 \<and> tag ref2 = get_tag s2 \<longrightarrow>
        match2 mk1 mk2 ref1 ref2 lambda w = Inr (lambda (mk1 s1 ref1) (mk2 s2 ref2) w)
        \<and> match2sp mk1 mk2 ref1 ref2 lambda w =
            (if get_real_t s1 = get_real_t s2
             then Inr (lambda (mk1 s1 ref1) (mk2 s2 ref2) w)
             else Inl (runtime_error ''A match was not found''))"
  proof (intro allI impI)
    fix s1 s2
    assume a: "s1 \<in> set (Types ref1) \<and> s2 \<in> set (Types ref2)
          \<and> tag ref1 = get_tag s1 \<and> tag ref2 = get_tag s2"
    then have t: "tag ref1 = get_tag s1" "tag ref2 = get_tag s2" by simp_all
    from a have 1: "(s1, s2) \<in> set (Combinations (Types ref1) (Types ref2))"
      by (simp add: set_Combinations)
    from a have 2: "((s1, s2) \<in> set (Filter IsSamePrecision
                       (Combinations (Types ref1) (Types ref2))))
                    = (get_real_t s1 = get_real_t s2)"
      unfolding f by simp
    show "match2 mk1 mk2 ref1 ref2 lambda w = Inr (lambda (mk1 s1 ref1) (mk2 s2 ref2) w)
        \<and> match2sp mk1 mk2 ref1 ref2 lambda w =
            (if get_real_t s1 = get_real_t s2
             then Inr (lambda (mk1 s1 ref1) (mk2 s2 ref2) w)
             else Inl (runtime_error ''A match was not found''))"
      unfolding match2_def match2sp_def Let_def try_match2_unique [OF t] using 1 2 by simp
  qed
  show ?thesis
    using f u by (simp add: match2_def match2sp_def try_match2_find set_Combinations)
qed

theorem match2_cartesian_match2sp_same_precision_witness:
  "match2sp (\<lambda>s r. s) (\<lambda>s r. s)
       \<lparr>tag = Tag_f64, is_row_major = True, data = 0, rows = 1, cols = 3,
        Types = [Float, Double, ComplexFloat, ComplexDouble]\<rparr>
       \<lparr>tag = Tag_cf64, is_row_major = True, data = 24, rows = 1, cols = 3,
        Types = [Float, Double, ComplexFloat, ComplexDouble]\<rparr>
       (\<lambda>c1 c2 n. ((c1, c2), Suc n)) (0::nat) = Inr ((Double, ComplexDouble), 1)
   \<and> match2sp (\<lambda>s r. s) (\<lambda>s r. s)
       \<lparr>tag = Tag_f64, is_row_major = True, data = 0, rows = 1, cols = 3,
        Types = [Float, Double, ComplexFloat, ComplexDouble]\<rparr>
       \<lparr>tag = Tag_cf32, is_row_major = True, data = 24, rows = 1, cols = 3,
        Types = [Float, Double, ComplexFloat, ComplexDouble]\<rparr>
       (\<lambda>c1 c2 n. ((c1, c2), Suc n)) (0::nat) = Inl (runtime_error ''A match was not found'')"
proof -
  let ?T = "[Float, Double, ComplexFloat, ComplexDouble]"
  let ?a = "\<lparr>tag = Tag_f64, is_row_major = True, data = 0::nat, rows = 1, cols = 3, Types = ?T\<rparr>"
  let ?b = "\<lparr>tag = Tag_cf64, is_row_major = True, data = 24::nat, rows = 1, cols = 3, Types = ?T\<rparr>"
  let ?c = "\<lparr>tag = Tag_cf32, is_row_major = True, data = 24::nat, rows = 1, cols = 3, Types = ?T\<rparr>"
  let ?op = "\<lambda>(c1::Scalar) (c2::Scalar) (n::nat). ((c1, c2), Suc n)"
  have 1: "Double \<in> set (Types ?a) \<and> ComplexDouble \<in> set (Types ?b)
          \<and> tag ?a = get_tag Double \<and> tag ?b = get_tag ComplexDouble" by simp
  have 2: "Double \<in> set (Types ?a) \<and> ComplexFloat \<in> set (Types ?c)
          \<and> tag ?a = get_tag Double \<and> tag ?c = get_tag ComplexFloat" by simp
  from match2_cartesian_match2sp_same_precision [of ?a ?b "\<lambda>s r. s" "\<lambda>s r. s" ?op 0] 1
  have "match2sp (\<lambda>s r. s) (\<lambda>s r. s) ?a ?b ?op 0 =
            (if get_real_t Double = get_real_t ComplexDouble
             then Inr (?op Double ComplexDouble 0)
             else Inl (runtime_error ''A match was not found''))" by blast
  then have x: "match2sp (\<lambda>s r. s) (\<lambda>s r. s) ?a ?b ?op 0 = Inr ((Double, ComplexDouble), 1)"
    by simp
  from match2_cartesian_match2sp_same_precision [of ?a ?c "\<lambda>s r. s" "\<lambda>s r. s" ?op 0] 2
  have "match2sp (\<lambda>s r. s) (\<lambda>s r. s) ?a ?c ?op 0 =
            (if get_real_t Double = get_real_t ComplexFloat
             then Inr (?op Double ComplexFloat 0)
             else Inl (runtime_error ''A match was not found''))" by blast
  then have y: "match2sp (\<lambda>s r. s) (\<lambda>s r. s) ?a ?c ?op 0
                 = Inl (runtime_error ''A match was not found'')"
    by simp
  from x y show ?thesis by blast
qed

text \<open>
  Claim C8. There are two array references, tagged \<open>f32\<close> and \<open>f64\<close>, that both pass
  the construction of a \<open>ComplexArrayRef\<close> (the four-type set) and for which
  \<open>match2sp\<close> ends in the no-match runtime error, whatever the containers and the
  operation; \<open>match2\<close> on the same pair finds the pair (float, double).
\<close>

theorem match2sp_mixed_precision_no_match:
  "\<exists>a1 a2 v1 v2. ComplexArrayRef a1 = Inr v1 \<and> ComplexArrayRef a2 = Inr v2
      \<and> tag v1 = Tag_f32 \<and> tag v2 = Tag_f64
      \<and> (\<forall>mk1 mk2 lambda w. match2sp mk1 mk2 v1 v2 lambda w
            = (Inl (runtime_error ''A match was not found'') :: error + 'r \<times> 'w))
      \<and> (\<forall>mk1 mk2 lambda w. match2 mk1 mk2 v1 v2 lambda w
            = (Inr (lambda (mk1 Float v1) (mk2 Double v2) w) :: error + 'r \<times> 'w))"
proof -
  let ?a1 = "arrayref Tag_f32 0 4"
  let ?a2 = "arrayref Tag_f64 16 4"
  let ?v1 = "\<lparr>tag = Tag_f32, is_row_major = True, data = 0::nat, rows = 1, cols = 4,
        Types = [Float, Double, ComplexFloat, ComplexDouble]\<rparr>"
  let ?v2 = "\<lparr>tag = Tag_f64, is_row_major = True, data = 16::nat, rows = 1, cols = 4,
        Types = [Float, Double, ComplexFloat, ComplexDouble]\<rparr>"
  have 1: "ComplexArrayRef ?a1 = Inr ?v1"
    by (simp add: ComplexArrayRef_def VariantArrayRef_def arrayref_def BasicArrayRef.extend_def)
  have 2: "ComplexArrayRef ?a2 = Inr ?v2"
    by (simp add: ComplexArrayRef_def VariantArrayRef_def arrayref_def BasicArrayRef.extend_def)
  show ?thesis
    apply (rule exI [of _ ?a1], rule exI [of _ ?a2], rule exI [of _ ?v1], rule exI [of _ ?v2])
    apply (simp add: 1 2)
    apply (simp add: match2sp_def match2_def Combinations_def Filter_def)
    done
qed

section \<open>Properties of the foundation\<close>

subsection \<open>Counting valid sites\<close>

lemma rank_0: "rank valid 0 = 0"
  by (simp add: rank_def)

lemma rank_Suc:
  "i < length valid \<Longrightarrow> rank valid (Suc i) = rank valid i + (if valid ! i then 1 else 0)"
  by (simp add: rank_def take_Suc_conv_app_nth)

lemma rank_mono: "i \<le> j \<Longrightarrow> rank valid i \<le> rank valid j"
proof (induction j)
  case 0
  then show ?case by simp
next
  case (Suc j)
  show ?case
  proof (cases "i = Suc j")
    case True
    then show ?thesis by simp
  next
    case False
    with Suc have le: "rank valid i \<le> rank valid j" by simp
    show ?thesis
    proof (cases "j < length valid")
      case True
      then show ?thesis using le by (simp add: rank_Suc)
    next
      case False
      then have "rank valid (Suc j) = rank valid j" by (simp add: rank_def)
      with le show ?thesis by simp
    qed
  qed
qed

lemma rank_strict:
  assumes "i < j" "i < length valid" "valid ! i"
  shows "rank valid i < rank valid j"
proof -
  from assms have "rank valid (Suc i) = rank valid i + 1" by (simp add: rank_Suc)
  moreover from assms have "rank valid (Suc i) \<le> rank valid j" by (simp add: rank_mono)
  ultimately show ?thesis by simp
qed

lemma rank_length: "rank valid (length valid) = length (filter (\<lambda>b. b) valid)"
  by (simp add: rank_def)

lemma loop_inv:
  "i \<le> n \<Longrightarrow> length valid = n \<Longrightarrow> length ind = n \<Longrightarrow> nvs = int (rank valid i) \<Longrightarrow>
   HamiltonianIndices_loop valid n i (ind, nvs) = (ind', nvs') \<Longrightarrow>
   length ind' = n \<and> nvs' = int (rank valid n) \<and>
   (\<forall>k<n. ind' ! k = (if i \<le> k \<and> valid ! k then int (rank valid k) else ind ! k))"
proof (induction valid n i "(ind, nvs)" arbitrary: ind nvs rule: HamiltonianIndices_loop.induct)
  case (1 valid n i ind nvs)
  show ?case
  proof (cases "i < n")
    case False
    then have "HamiltonianIndices_loop valid n i (ind, nvs) = (ind, nvs)"
      by (simp add: HamiltonianIndices_loop.simps [of valid n i])
    with "1.prems" False show ?thesis by auto
  next
    case True
    let ?st = "if valid ! i then (ind[i := nvs], nvs + 1) else (ind, nvs)"
    obtain ind1 nvs1 where st: "?st = (ind1, nvs1)" by (cases ?st)
    have run: "HamiltonianIndices_loop valid n (i + 1) (ind1, nvs1) = (ind', nvs')"
      using "1.prems"(5) True st by (simp add: HamiltonianIndices_loop.simps [of valid n i])
    have len1: "length ind1 = n" using st "1.prems"(3) by (auto split: if_splits)
    have nvs1: "nvs1 = int (rank valid (i + 1))"
      using st "1.prems"(2,4) True by (auto simp: rank_Suc split: if_splits)
    have ih: "length ind' = n \<and> nvs' = int (rank valid n) \<and>
       (\<forall>k<n. ind' ! k = (if i + 1 \<le> k \<and> valid ! k then int (rank valid k) else ind1 ! k))"
      using "1.hyps" [OF True st _ "1.prems"(2) len1 nvs1 run] True by simp
    have "\<forall>k<n. ind' ! k = (if i \<le> k \<and> valid ! k then int (rank valid k) else ind ! k)"
    proof (intro allI impI)
      fix k assume k: "k < n"
      show "ind' ! k = (if i \<le> k \<and> valid ! k then int (rank valid k) else ind ! k)"
      proof (cases "k = i")
        case True
        with ih k have "ind' ! k = ind1 ! i" by simp
        also have "\<dots> = (if valid ! i then nvs else ind ! i)"
          using st "1.prems"(3) \<open>i < n\<close> by (auto split: if_splits)
        finally show ?thesis using True "1.prems"(4) by simp
      next
        case False
        then have "ind1 ! k = ind ! k" using st by (auto split: if_splits)
        with ih k False show ?thesis by auto
      qed
    qed
    with ih show ?thesis by simp
  qed
qed

lemma HamiltonianIndices_closed:
  assumes "length (is_valid f) = num_sites f"
  shows "length (indices (HamiltonianIndices f)) = num_sites f"
    and "num_valid_sites (HamiltonianIndices f) = int (length (filter (\<lambda>b. b) (is_valid f)))"
    and "\<And>k. k < num_sites f \<Longrightarrow> indices (HamiltonianIndices f) ! k =
           (if is_valid f ! k then int (rank (is_valid f) k) else - 1)"
proof -
  let ?n = "num_sites f"
  obtain ind' nvs' where r:
    "HamiltonianIndices_loop (is_valid f) ?n 0 (replicate ?n (- 1), 0) = (ind', nvs')"
    by (cases "HamiltonianIndices_loop (is_valid f) ?n 0 (replicate ?n (- 1), 0)")
  have h: "HamiltonianIndices f = \<lparr>indices = ind', num_valid_sites = nvs'\<rparr>"
    by (simp add: HamiltonianIndices_def r)
  from loop_inv [OF _ assms _ _ r] have inv:
    "length ind' = ?n" "nvs' = int (rank (is_valid f) ?n)"
    "\<forall>k<?n. ind' ! k = (if 0 \<le> k \<and> is_valid f ! k then int (rank (is_valid f) k)
                          else replicate ?n (- 1) ! k)"
    by (simp_all add: rank_0)
  show "length (indices (HamiltonianIndices f)) = num_sites f" using h inv by simp
  show "num_valid_sites (HamiltonianIndices f) = int (length (filter (\<lambda>b. b) (is_valid f)))"
    using h inv(2) assms rank_length [of "is_valid f"] by simp
  show "\<And>k. k < num_sites f \<Longrightarrow> indices (HamiltonianIndices f) ! k =
           (if is_valid f ! k then int (rank (is_valid f) k) else - 1)"
    using h inv(3) by simp
qed

lemma rank_less_total:
  assumes "i < length valid" "valid ! i"
  shows "rank valid i < length (filter (\<lambda>b. b) valid)"
  using rank_strict [OF _ assms, of "length valid"] assms(1) by (simp add: rank_length)

lemma card_valid: "card {i. i < length valid \<and> valid ! i} = length (filter (\<lambda>b. b) valid)"
  by (simp add: length_filter_conv_card)

subsection \<open>Hamiltonian indices\<close>

text \<open>
  Claim C9. For a foundation with one validity flag per site, after the construction of
  the Hamiltonian indices the array has one entry per site; the entry of a site is
  non-negative exactly when the site is valid; an invalid site keeps \<open>-1\<close>; a valid site
  gets the number of valid sites before it, so the valid sites get \<open>0\<close>,
  \<open>1\<close>, ... in the order of their site index; \<open>num_valid_sites\<close> is the number of valid
  sites; the entries are a bijection from the valid sites onto the indices from \<open>0\<close>
  below \<open>num_valid_sites\<close>, and it preserves the order.
\<close>

theorem HamiltonianIndices_order_preserving_bijection:
  assumes "length (is_valid f) = num_sites f"
  shows "length (indices (HamiltonianIndices f)) = num_sites f
    \<and> (\<forall>i<num_sites f. (0 \<le> indices (HamiltonianIndices f) ! i) = is_valid f ! i)
    \<and> (\<forall>i<num_sites f. \<not> is_valid f ! i \<longrightarrow> indices (HamiltonianIndices f) ! i = - 1)
    \<and> (\<forall>i<num_sites f. is_valid f ! i \<longrightarrow>
          indices (HamiltonianIndices f) ! i
            = int (length (filter (\<lambda>b. b) (take i (is_valid f)))))
    \<and> num_valid_sites (HamiltonianIndices f) = int (length (filter (\<lambda>b. b) (is_valid f)))
    \<and> num_valid_sites (HamiltonianIndices f) = int (card {i. i < num_sites f \<and> is_valid f ! i})
    \<and> bij_betw (\<lambda>i. indices (HamiltonianIndices f) ! i)
          {i. i < num_sites f \<and> is_valid f ! i} {0..<num_valid_sites (HamiltonianIndices f)}
    \<and> (\<forall>i j. i < j \<and> j < num_sites f \<and> is_valid f ! i \<and> is_valid f ! j \<longrightarrow>
          indices (HamiltonianIndices f) ! i < indices (HamiltonianIndices f) ! j)"
proof -
  let ?h = "HamiltonianIndices f"
  let ?n = "num_sites f"
  let ?v = "is_valid f"
  let ?V = "{i. i < ?n \<and> ?v ! i}"
  note c = HamiltonianIndices_closed [OF assms]
  have len: "length (indices ?h) = ?n" by (rule c(1))
  have total: "num_valid_sites ?h = int (length (filter (\<lambda>b. b) ?v))" by (rule c(2))
  have at: "\<And>k. k < ?n \<Longrightarrow> indices ?h ! k = (if ?v ! k then int (rank ?v k) else - 1)"
    by (rule c(3))
  have sign: "\<forall>i<?n. (0 \<le> indices ?h ! i) = ?v ! i" using at by simp
  have inval: "\<forall>i<?n. \<not> ?v ! i \<longrightarrow> indices ?h ! i = - 1" using at by simp
  have val: "\<forall>i<?n. ?v ! i \<longrightarrow>
      indices ?h ! i = int (length (filter (\<lambda>b. b) (take i ?v)))"
    using at by (simp add: rank_def)
  have cardV: "num_valid_sites ?h = int (card ?V)"
    using total card_valid [of ?v] assms by simp
  have mono: "\<forall>i j. i < j \<and> j < ?n \<and> ?v ! i \<and> ?v ! j \<longrightarrow> indices ?h ! i < indices ?h ! j"
  proof (intro allI impI)
    fix i j assume a: "i < j \<and> j < ?n \<and> ?v ! i \<and> ?v ! j"
    then have "rank ?v i < rank ?v j" using rank_strict [of i j ?v] assms by simp
    with a show "indices ?h ! i < indices ?h ! j" using at [of i] at [of j] by simp
  qed
  have inj: "inj_on (\<lambda>i. indices ?h ! i) ?V"
  proof (rule inj_onI)
    fix x y assume x: "x \<in> ?V" and y: "y \<in> ?V" and e: "indices ?h ! x = indices ?h ! y"
    show "x = y"
    proof (rule ccontr)
      assume "x \<noteq> y"
      then consider "x < y" | "y < x" by linarith
      then show False
      proof cases
        case 1
        with mono x y have "indices ?h ! x < indices ?h ! y" by blast
        with e show False by simp
      next
        case 2
        with mono x y have "indices ?h ! y < indices ?h ! x" by blast
        with e show False by simp
      qed
    qed
  qed
  have sub: "(\<lambda>i. indices ?h ! i) ` ?V \<subseteq> {0..<num_valid_sites ?h}"
  proof
    fix y assume "y \<in> (\<lambda>i. indices ?h ! i) ` ?V"
    then obtain i where i: "i < ?n" "?v ! i" "y = indices ?h ! i" by auto
    then have "y = int (rank ?v i)" using at by simp
    moreover have "rank ?v i < length (filter (\<lambda>b. b) ?v)"
      using rank_less_total [of i ?v] i assms by simp
    ultimately show "y \<in> {0..<num_valid_sites ?h}" using total by simp
  qed
  have "card ((\<lambda>i. indices ?h ! i) ` ?V) = card ?V" using inj by (rule card_image)
  also have "\<dots> = card {0..<num_valid_sites ?h}" using cardV by simp
  finally have "(\<lambda>i. indices ?h ! i) ` ?V = {0..<num_valid_sites ?h}"
    using sub by (simp add: card_subset_eq)
  with inj have bij: "bij_betw (\<lambda>i. indices ?h ! i) ?V {0..<num_valid_sites ?h}"
    by (simp add: bij_betw_def)
  from len sign inval val total cardV bij mono show ?thesis by blast
qed

theorem HamiltonianIndices_order_preserving_bijection_witness:
  "length (is_valid \<lparr>num_sites = 5, is_valid = [True, False, True, True, False],
                     hoppings = (\<lambda>site. [])\<rparr>)
     = num_sites \<lparr>num_sites = 5, is_valid = [True, False, True, True, False],
                  hoppings = (\<lambda>site. [])\<rparr>
   \<and> length (indices (HamiltonianIndices
        \<lparr>num_sites = 5, is_valid = [True, False, True, True, False],
         hoppings = (\<lambda>site. [])\<rparr>)) = 5
   \<and> num_valid_sites (HamiltonianIndices
        \<lparr>num_sites = 5, is_valid = [True, False, True, True, False],
         hoppings = (\<lambda>site. [])\<rparr>) = 3
   \<and> indices (HamiltonianIndices
        \<lparr>num_sites = 5, is_valid = [True, False, True, True, False],
         hoppings = (\<lambda>site. [])\<rparr>) ! 3 = 2
   \<and> indices (HamiltonianIndices
        \<lparr>num_sites = 5, is_valid = [True, False, True, True, False],
         hoppings = (\<lambda>site. [])\<rparr>) ! 4 = - 1"
proof -
  let ?f = "\<lparr>num_sites = 5, is_valid = [True, False, True, True, False],
             hoppings = (\<lambda>site. [])\<rparr>"
  have h: "length (is_valid ?f) = num_sites ?f" by simp
  note t = HamiltonianIndices_order_preserving_bijection [OF h]
  have 1: "length (indices (HamiltonianIndices ?f)) = 5" using t by simp
  have 2: "num_valid_sites (HamiltonianIndices ?f) = 3" using t by simp
  have "(3::nat) < num_sites ?f" "is_valid ?f ! 3" by simp_all
  with t have "indices (HamiltonianIndices ?f) ! 3
      = int (length (filter (\<lambda>b. b) (take 3 (is_valid ?f))))" by blast
  then have 3: "indices (HamiltonianIndices ?f) ! 3 = 2" by (simp add: numeral_3_eq_3)
  have "(4::nat) < num_sites ?f" "\<not> is_valid ?f ! 4" by simp_all
  with t have 4: "indices (HamiltonianIndices ?f) ! 4 = - 1" by blast
  from h 1 2 3 4 show ?thesis by blast
qed

subsection \<open>Termination of the removal of dangling sites\<close>

lemma nvalid_le: "nvalid valid \<le> length valid"
  by (simp add: nvalid_def)

lemma nvalid_update_False:
  "x < length valid \<Longrightarrow> valid ! x \<Longrightarrow> Suc (nvalid (valid[x := False])) = nvalid valid"
proof (induction valid arbitrary: x)
  case Nil
  then show ?case by simp
next
  case (Cons a valid)
  show ?case
  proof (cases x)
    case 0
    with Cons.prems show ?thesis by (simp add: nvalid_def)
  next
    case (Suc y)
    with Cons.prems have "Suc (nvalid (valid[y := False])) = nvalid valid"
      using Cons.IH [of y] by simp
    with Suc show ?thesis by (simp add: nvalid_def)
  qed
qed

lemma nvalid_invalid_site:
  assumes "x < length valid" "\<not> valid ! x"
  shows "nvalid valid < length valid"
proof -
  from assms(1) have "valid ! x \<in> set valid" by (rule nth_mem)
  from this assms(2) show ?thesis unfolding nvalid_def by (rule length_filter_less)
qed

lemma returnsE:
  assumes "returns n t (valid, neighbor_count, calls, recursive) res"
  obtains valid' neighbor_count' calls' recursive' where
    "res = Some (valid', neighbor_count', calls', recursive')"
    "length valid' = n" "nvalid valid' \<le> nvalid valid"
    "recursive' = recursive + (nvalid valid - nvalid valid')"
    "calls' = calls + t + (nvalid valid - nvalid valid')"
  using assms by (auto simp: returns_def)

lemma for_each_neighbour_returns:
  assumes clear: "\<And>site valid neighbor_count calls recursive.
      site < n \<Longrightarrow> length valid = n \<Longrightarrow> nvalid valid < d \<Longrightarrow>
      returns n 1 (valid, neighbor_count, calls, recursive)
        (clear_neighbors d hop m site (valid, neighbor_count, calls, recursive))"
  shows "\<forall>x\<in>set xs. x < n \<Longrightarrow> length valid = n \<Longrightarrow> nvalid valid \<le> d \<Longrightarrow>
      returns n 0 (valid, neighbor_count, calls, recursive)
        (for_each_neighbour d hop m xs (valid, neighbor_count, calls, recursive))"
proof (induction xs arbitrary: valid neighbor_count calls recursive)
  case Nil
  then show ?case by (simp add: returns_def)
next
  case (Cons x xs)
  from Cons.prems have x: "x < n" and xs: "\<forall>x\<in>set xs. x < n" by simp_all
  let ?c1 = "neighbor_count[x := neighbor_count ! x - 1]"
  show ?case
  proof (cases "valid ! x")
    case False
    then show ?thesis using Cons.IH [OF xs Cons.prems(2,3)] by simp
  next
    case True
    show ?thesis
    proof (cases "sint (?c1 ! x) < sint m")
      case False
      then show ?thesis using True Cons.IH [OF xs Cons.prems(2,3), of ?c1 calls recursive]
        by (simp add: Let_def returns_def)
    next
      case below: True
      let ?v1 = "valid[x := False]"
      have dec: "Suc (nvalid ?v1) = nvalid valid"
        using nvalid_update_False [of x valid] x True Cons.prems(2) by simp
      have len1: "length ?v1 = n" using Cons.prems(2) by simp
      have "nvalid ?v1 < d" using dec Cons.prems(3) by simp
      from clear [OF x len1 this, of ?c1 calls "Suc recursive"]
      obtain v2 c2 k2 r2 where r:
        "clear_neighbors d hop m x (?v1, ?c1, calls, Suc recursive) = Some (v2, c2, k2, r2)"
        "length v2 = n" "nvalid v2 \<le> nvalid ?v1"
        "r2 = Suc recursive + (nvalid ?v1 - nvalid v2)"
        "k2 = calls + 1 + (nvalid ?v1 - nvalid v2)"
        by (rule returnsE)
      have le2: "nvalid v2 \<le> d" using r(3) dec Cons.prems(3) by simp
      from Cons.IH [OF xs r(2) le2, of c2 k2 r2]
      obtain v3 c3 k3 r3 where r3:
        "for_each_neighbour d hop m xs (v2, c2, k2, r2) = Some (v3, c3, k3, r3)"
        "length v3 = n" "nvalid v3 \<le> nvalid v2"
        "r3 = r2 + (nvalid v2 - nvalid v3)" "k3 = k2 + 0 + (nvalid v2 - nvalid v3)"
        by (rule returnsE)
      have "for_each_neighbour d hop m (x # xs) (valid, neighbor_count, calls, recursive)
              = Some (v3, c3, k3, r3)"
        using True below r(1) r3(1) by (simp add: Let_def)
      moreover have "nvalid v3 \<le> nvalid valid
          \<and> r3 = recursive + (nvalid valid - nvalid v3)
          \<and> k3 = calls + 0 + (nvalid valid - nvalid v3)"
        using r3(3,4,5) r(3,4,5) dec by arith
      ultimately show ?thesis using r3(2) by (simp add: returns_def)
    qed
  qed
qed

lemma clear_neighbors_returns_Suc:
  assumes each: "\<And>xs valid neighbor_count calls recursive.
      \<forall>x\<in>set xs. x < n \<Longrightarrow> length valid = n \<Longrightarrow> nvalid valid \<le> d \<Longrightarrow>
      returns n 0 (valid, neighbor_count, calls, recursive)
        (for_each_neighbour d hop m xs (valid, neighbor_count, calls, recursive))"
    and range: "neighbours_in_range n hop"
    and site: "site < n" and len: "length valid = n" and fuel: "nvalid valid < Suc d"
  shows "returns n 1 (valid, neighbor_count, calls, recursive)
        (clear_neighbors (Suc d) hop m site (valid, neighbor_count, calls, recursive))"
proof (cases "neighbor_count ! site = 0")
  case True
  then show ?thesis using len by (simp add: returns_def)
next
  case False
  from range site have "\<forall>x\<in>set (in_bounds (hop site)). x < n"
    by (simp add: neighbours_in_range_def)
  from each [OF this len, of neighbor_count "Suc calls" recursive] fuel
  obtain v2 c2 k2 r2 where r:
    "for_each_neighbour d hop m (in_bounds (hop site))
       (valid, neighbor_count, Suc calls, recursive) = Some (v2, c2, k2, r2)"
    "length v2 = n" "nvalid v2 \<le> nvalid valid"
    "r2 = recursive + (nvalid valid - nvalid v2)"
    "k2 = Suc calls + 0 + (nvalid valid - nvalid v2)"
    by (auto elim: returnsE)
  have "clear_neighbors (Suc d) hop m site (valid, neighbor_count, calls, recursive)
          = Some (v2, c2[site := 0], k2, r2)"
    using False r(1) by simp
  then show ?thesis using r(2,3,4,5) by (simp add: returns_def)
qed

lemma clear_neighbors_returns:
  assumes "neighbours_in_range n hop"
  shows "site < n \<Longrightarrow> length valid = n \<Longrightarrow> nvalid valid < d \<Longrightarrow>
      returns n 1 (valid, neighbor_count, calls, recursive)
        (clear_neighbors d hop m site (valid, neighbor_count, calls, recursive))"
proof (induction d arbitrary: site valid neighbor_count calls recursive)
  case 0
  then show ?case by simp
next
  case (Suc d)
  show ?case
  proof (rule clear_neighbors_returns_Suc [OF _ assms Suc.prems])
    fix xs :: "nat list" and valid neighbor_count calls recursive
    assume "\<forall>x\<in>set xs. x < n" "length valid = n" "nvalid valid \<le> d"
    then show "returns n 0 (valid, neighbor_count, calls, recursive)
        (for_each_neighbour d hop m xs (valid, neighbor_count, calls, recursive))"
      by (rule for_each_neighbour_returns [rotated 1]) (rule Suc.IH)
  qed
qed

lemma remove_dangling_loop_returns:
  assumes "neighbours_in_range n hop" "n \<le> d"
  shows "\<forall>x\<in>set sites. x < n \<Longrightarrow> length valid = n \<Longrightarrow>
      \<exists>t\<le>length sites. returns n t (valid, neighbor_count, calls, recursive)
        (remove_dangling_loop d hop m sites (valid, neighbor_count, calls, recursive))"
proof (induction sites arbitrary: valid neighbor_count calls recursive)
  case Nil
  then show ?case by (simp add: returns_def)
next
  case (Cons site sites)
  from Cons.prems have site: "site < n" and rest: "\<forall>x\<in>set sites. x < n" by simp_all
  show ?case
  proof (cases "valid ! site")
    case True
    from Cons.IH [OF rest Cons.prems(2), of neighbor_count calls recursive]
    obtain t where "t \<le> length sites"
      "returns n t (valid, neighbor_count, calls, recursive)
        (remove_dangling_loop d hop m sites (valid, neighbor_count, calls, recursive))"
      by blast
    with True have "t \<le> length (site # sites) \<and>
      returns n t (valid, neighbor_count, calls, recursive)
        (remove_dangling_loop d hop m (site # sites) (valid, neighbor_count, calls, recursive))"
      by simp
    then show ?thesis by blast
  next
    case False
    have "nvalid valid < d"
      using nvalid_invalid_site [of site valid] site False Cons.prems(2) assms(2) by simp
    from clear_neighbors_returns
           [OF assms(1) site Cons.prems(2) this, of neighbor_count calls recursive m]
    obtain v2 c2 k2 r2 where r:
      "clear_neighbors d hop m site (valid, neighbor_count, calls, recursive)
         = Some (v2, c2, k2, r2)"
      "length v2 = n" "nvalid v2 \<le> nvalid valid"
      "r2 = recursive + (nvalid valid - nvalid v2)"
      "k2 = calls + 1 + (nvalid valid - nvalid v2)"
      by (rule returnsE)
    from Cons.IH [OF rest r(2), of c2 k2 r2]
    obtain t v3 c3 k3 r3 where r3: "t \<le> length sites"
      "remove_dangling_loop d hop m sites (v2, c2, k2, r2) = Some (v3, c3, k3, r3)"
      "length v3 = n" "nvalid v3 \<le> nvalid v2"
      "r3 = r2 + (nvalid v2 - nvalid v3)" "k3 = k2 + t + (nvalid v2 - nvalid v3)"
      by (auto elim: returnsE)
    have "remove_dangling_loop d hop m (site # sites) (valid, neighbor_count, calls, recursive)
            = Some (v3, c3, k3, r3)"
      using False r(1) r3(2) by simp
    moreover have "nvalid v3 \<le> nvalid valid
        \<and> r3 = recursive + (nvalid valid - nvalid v3)
        \<and> k3 = calls + Suc t + (nvalid valid - nvalid v3)"
      using r3(4,5,6) r(3,4,5) by arith
    ultimately have "Suc t \<le> length (site # sites) \<and>
      returns n (Suc t) (valid, neighbor_count, calls, recursive)
        (remove_dangling_loop d hop m (site # sites) (valid, neighbor_count, calls, recursive))"
      using r3(1,3) by (simp add: returns_def)
    then show ?thesis by blast
  qed
qed

text \<open>A larger depth budget does not change a result.\<close>

lemma for_each_neighbour_deeper:
  assumes clear: "\<And>site st r. clear_neighbors d hop m site st = Some r
                    \<Longrightarrow> clear_neighbors d' hop m site st = Some r"
  shows "for_each_neighbour d hop m xs st = Some r
           \<Longrightarrow> for_each_neighbour d' hop m xs st = Some r"
proof (induction xs arbitrary: st r)
  case Nil
  then show ?case by simp
next
  case (Cons x xs)
  obtain valid neighbor_count calls recursive where
    st: "st = (valid, neighbor_count, calls, recursive)"
    by (cases st)
  let ?c1 = "neighbor_count[x := neighbor_count ! x - 1]"
  show ?case
  proof (cases "valid ! x")
    case False
    then show ?thesis using Cons.prems Cons.IH st by simp
  next
    case True
    show ?thesis
    proof (cases "sint (?c1 ! x) < sint m")
      case False
      then show ?thesis using True Cons.prems Cons.IH st by (simp add: Let_def)
    next
      case below: True
      from Cons.prems st True below obtain st' where
        c: "clear_neighbors d hop m x (valid[x := False], ?c1, calls, Suc recursive) = Some st'"
        and e: "for_each_neighbour d hop m xs st' = Some r"
        by (auto simp: Let_def split: option.splits)
      from clear [OF c] Cons.IH [OF e] show ?thesis
        using st True below by (simp add: Let_def)
    qed
  qed
qed

lemma clear_neighbors_deeper:
  "clear_neighbors d hop m site st = Some r \<Longrightarrow> clear_neighbors (d + e) hop m site st = Some r"
proof (induction d arbitrary: site st r)
  case 0
  then show ?case by simp
next
  case (Suc d)
  obtain valid neighbor_count calls recursive where
    st: "st = (valid, neighbor_count, calls, recursive)"
    by (cases st)
  show ?case
  proof (cases "neighbor_count ! site = 0")
    case True
    with Suc.prems have r: "r = (valid, neighbor_count, Suc calls, recursive)"
      unfolding st by simp
    show ?thesis unfolding st r using True by simp
  next
    case False
    from Suc.prems st False obtain v2 c2 k2 r2 where
      f: "for_each_neighbour d hop m (in_bounds (hop site))
            (valid, neighbor_count, Suc calls, recursive) = Some (v2, c2, k2, r2)"
      and r: "r = (v2, c2[site := 0], k2, r2)"
      by (auto split: option.splits)
    have "for_each_neighbour (d + e) hop m (in_bounds (hop site))
            (valid, neighbor_count, Suc calls, recursive) = Some (v2, c2, k2, r2)"
      using f by (rule for_each_neighbour_deeper [rotated 1]) (rule Suc.IH)
    then show ?thesis using st False r by simp
  qed
qed

lemma remove_dangling_loop_deeper:
  "remove_dangling_loop d hop m sites st = Some r
     \<Longrightarrow> remove_dangling_loop (d + e) hop m sites st = Some r"
proof (induction sites arbitrary: st r)
  case Nil
  then show ?case by simp
next
  case (Cons site sites)
  obtain valid neighbor_count calls recursive where
    st: "st = (valid, neighbor_count, calls, recursive)"
    by (cases st)
  show ?case
  proof (cases "valid ! site")
    case True
    then show ?thesis using Cons.prems Cons.IH st by simp
  next
    case False
    from Cons.prems st False obtain st' where
      c: "clear_neighbors d hop m site (valid, neighbor_count, calls, recursive) = Some st'"
      and l: "remove_dangling_loop d hop m sites st' = Some r"
      by (auto split: option.splits)
    from clear_neighbors_deeper [OF c, of e] Cons.IH [OF l] show ?thesis
      using st False by simp
  qed
qed

text \<open>
  Claim C10, amended. For a foundation with one validity flag per site whose visited
  neighbours are sites of the foundation, and for every value of \<open>min_neighbors\<close>:
  \<open>remove_dangling\<close> returns, with the same result for every depth budget from the
  number of sites on, so the recursion is no deeper than the number of sites. The number
  of recursive calls of \<open>clear_neighbors\<close> is the number of sites that are marked
  invalid, each recursive call following one such mark, and is at most the number of
  sites. The number of all calls of \<open>clear_neighbors\<close>, those of the loop of
  \<open>remove_dangling\<close> included, is the number of recursive calls and at most one call
  of the loop for each site, so it is at most twice the number of sites. Each call of
  \<open>clear_neighbors\<close> on an invalid site, as the loop makes them, returns within that
  depth, and the call with all the calls below it are at most as many as the sites. In
  any state, on any site, a call returns within a depth above the number of valid sites,
  after one recursive call for each site it marks invalid.
\<close>

theorem remove_dangling_terminates:
  assumes len: "length (is_valid f) = num_sites f"
    and range: "\<forall>site<num_sites f. \<forall>j\<in>set (in_bounds (hoppings f site)). j < num_sites f"
  shows "(\<exists>f' calls recursive.
            (\<forall>depth\<ge>num_sites f. remove_dangling depth f m = Some (f', calls, recursive))
            \<and> length (is_valid f') = num_sites f
            \<and> recursive = length (filter (\<lambda>b. b) (is_valid f))
                            - length (filter (\<lambda>b. b) (is_valid f'))
            \<and> recursive \<le> num_sites f
            \<and> recursive \<le> calls
            \<and> calls \<le> num_sites f + recursive
            \<and> calls \<le> 2 * num_sites f)
    \<and> (\<forall>site valid neighbor_count calls recursive depth.
          site < num_sites f \<and> length valid = num_sites f \<and> \<not> valid ! site
            \<and> num_sites f \<le> depth \<longrightarrow>
          (\<exists>valid' neighbor_count' calls' recursive'.
             clear_neighbors depth (hoppings f) m site (valid, neighbor_count, calls, recursive)
               = Some (valid', neighbor_count', calls', recursive')
             \<and> length valid' = num_sites f
             \<and> calls' = calls + 1 + (recursive' - recursive)
             \<and> calls' - calls \<le> num_sites f))
    \<and> (\<forall>site valid neighbor_count calls recursive depth.
          site < num_sites f \<and> length valid = num_sites f
            \<and> length (filter (\<lambda>b. b) valid) < depth \<longrightarrow>
          (\<exists>valid' neighbor_count' calls' recursive'.
             clear_neighbors depth (hoppings f) m site (valid, neighbor_count, calls, recursive)
               = Some (valid', neighbor_count', calls', recursive')
             \<and> length valid' = num_sites f
             \<and> recursive' = recursive + (length (filter (\<lambda>b. b) valid)
                                           - length (filter (\<lambda>b. b) valid'))
             \<and> calls' = calls + 1 + (recursive' - recursive)))"
proof -
  let ?n = "num_sites f"
  have nr: "neighbours_in_range ?n (hoppings f)"
    using range by (simp add: neighbours_in_range_def)
  have sites: "\<forall>x\<in>set [0..<?n]. x < ?n" by simp
  from remove_dangling_loop_returns [OF nr order_refl sites len, of "count_neighbors f" 0 0 m]
  obtain t v' c' k' r' where r: "t \<le> ?n"
    "remove_dangling_loop ?n (hoppings f) m [0..<?n] (is_valid f, count_neighbors f, 0, 0)
       = Some (v', c', k', r')"
    "length v' = ?n" "nvalid v' \<le> nvalid (is_valid f)"
    "r' = 0 + (nvalid (is_valid f) - nvalid v')"
    "k' = 0 + t + (nvalid (is_valid f) - nvalid v')"
    by (auto elim: returnsE)
  let ?f' = "f\<lparr>is_valid := v'\<rparr>"
  have all: "\<forall>depth\<ge>?n. remove_dangling depth f m = Some (?f', k', r')"
  proof (intro allI impI)
    fix depth assume "?n \<le> depth"
    then obtain e where "depth = ?n + e" using le_Suc_ex by blast
    with remove_dangling_loop_deeper [OF r(2), of e]
    show "remove_dangling depth f m = Some (?f', k', r')"
      by (simp add: remove_dangling_def)
  qed
  have rr: "r' = length (filter (\<lambda>b. b) (is_valid f)) - length (filter (\<lambda>b. b) (is_valid ?f'))"
    using r(5) by (simp add: nvalid_def)
  have "r' \<le> nvalid (is_valid f)" using r(5) by simp
  then have rn: "r' \<le> ?n" using nvalid_le [of "is_valid f"] len by simp
  have kr: "k' = t + r'" using r(5,6) by simp
  have first: "\<exists>f' calls recursive.
            (\<forall>depth\<ge>num_sites f. remove_dangling depth f m = Some (f', calls, recursive))
            \<and> length (is_valid f') = num_sites f
            \<and> recursive = length (filter (\<lambda>b. b) (is_valid f))
                            - length (filter (\<lambda>b. b) (is_valid f'))
            \<and> recursive \<le> num_sites f
            \<and> recursive \<le> calls
            \<and> calls \<le> num_sites f + recursive
            \<and> calls \<le> 2 * num_sites f"
    apply (rule exI [of _ ?f'], rule exI [of _ k'], rule exI [of _ r'])
    using all rr rn kr r(1,3) by simp
  have second: "\<forall>site valid neighbor_count calls recursive depth.
          site < num_sites f \<and> length valid = num_sites f \<and> \<not> valid ! site
            \<and> num_sites f \<le> depth \<longrightarrow>
          (\<exists>valid' neighbor_count' calls' recursive'.
             clear_neighbors depth (hoppings f) m site (valid, neighbor_count, calls, recursive)
               = Some (valid', neighbor_count', calls', recursive')
             \<and> length valid' = num_sites f
             \<and> calls' = calls + 1 + (recursive' - recursive)
             \<and> calls' - calls \<le> num_sites f)"
  proof (intro allI impI)
    fix site valid neighbor_count calls recursive depth
    assume a: "site < ?n \<and> length valid = ?n \<and> \<not> valid ! site \<and> ?n \<le> depth"
    then have lt: "nvalid valid < ?n" using nvalid_invalid_site [of site valid] by simp
    with a have "nvalid valid < depth" by simp
    from clear_neighbors_returns [OF nr _ _ this, of site neighbor_count calls recursive m] a
    obtain v2 c2 k2 r2 where c:
      "clear_neighbors depth (hoppings f) m site (valid, neighbor_count, calls, recursive)
         = Some (v2, c2, k2, r2)"
      "length v2 = ?n" "nvalid v2 \<le> nvalid valid"
      "r2 = recursive + (nvalid valid - nvalid v2)"
      "k2 = calls + 1 + (nvalid valid - nvalid v2)"
      by (auto elim: returnsE)
    from c(4,5) lt have "k2 = calls + 1 + (r2 - recursive) \<and> k2 - calls \<le> ?n" by simp
    with c(1,2) show "\<exists>valid' neighbor_count' calls' recursive'.
             clear_neighbors depth (hoppings f) m site (valid, neighbor_count, calls, recursive)
               = Some (valid', neighbor_count', calls', recursive')
             \<and> length valid' = num_sites f
             \<and> calls' = calls + 1 + (recursive' - recursive)
             \<and> calls' - calls \<le> num_sites f" by blast
  qed
  have third: "\<forall>site valid neighbor_count calls recursive depth.
          site < num_sites f \<and> length valid = num_sites f
            \<and> length (filter (\<lambda>b. b) valid) < depth \<longrightarrow>
          (\<exists>valid' neighbor_count' calls' recursive'.
             clear_neighbors depth (hoppings f) m site (valid, neighbor_count, calls, recursive)
               = Some (valid', neighbor_count', calls', recursive')
             \<and> length valid' = num_sites f
             \<and> recursive' = recursive + (length (filter (\<lambda>b. b) valid)
                                           - length (filter (\<lambda>b. b) valid'))
             \<and> calls' = calls + 1 + (recursive' - recursive))"
  proof (intro allI impI)
    fix site valid neighbor_count calls recursive depth
    assume a: "site < ?n \<and> length valid = ?n \<and> length (filter (\<lambda>b. b) valid) < depth"
    then have "nvalid valid < depth" by (simp add: nvalid_def)
    from clear_neighbors_returns [OF nr _ _ this, of site neighbor_count calls recursive m] a
    obtain v2 c2 k2 r2 where c:
      "clear_neighbors depth (hoppings f) m site (valid, neighbor_count, calls, recursive)
         = Some (v2, c2, k2, r2)"
      "length v2 = ?n"
      "r2 = recursive + (nvalid valid - nvalid v2)"
      "k2 = calls + 1 + (nvalid valid - nvalid v2)"
      by (auto elim: returnsE)
    then show "\<exists>valid' neighbor_count' calls' recursive'.
             clear_neighbors depth (hoppings f) m site (valid, neighbor_count, calls, recursive)
               = Some (valid', neighbor_count', calls', recursive')
             \<and> length valid' = num_sites f
             \<and> recursive' = recursive + (length (filter (\<lambda>b. b) valid)
                                           - length (filter (\<lambda>b. b) valid'))
             \<and> calls' = calls + 1 + (recursive' - recursive)"
      by (simp add: nvalid_def)
  qed
  from first second third show ?thesis by blast
qed

theorem remove_dangling_terminates_witness:
  "remove_dangling 4
      \<lparr>num_sites = 4, is_valid = [False, True, True, True],
       hoppings = (\<lambda>site. [[None, Some 1], [Some 0, Some 2], [Some 1, Some 3], [Some 2, None]] ! site)\<rparr> 2
   = Some (\<lparr>num_sites = 4, is_valid = [False, False, False, False],
       hoppings = (\<lambda>site. [[None, Some 1], [Some 0, Some 2], [Some 1, Some 3], [Some 2, None]] ! site)\<rparr>,
       7, 3)
   \<and> remove_dangling 9
      \<lparr>num_sites = 4, is_valid = [False, True, True, True],
       hoppings = (\<lambda>site. [[None, Some 1], [Some 0, Some 2], [Some 1, Some 3], [Some 2, None]] ! site)\<rparr> 2
   = Some (\<lparr>num_sites = 4, is_valid = [False, False, False, False],
       hoppings = (\<lambda>site. [[None, Some 1], [Some 0, Some 2], [Some 1, Some 3], [Some 2, None]] ! site)\<rparr>,
       7, 3)"
proof -
  let ?hop = "\<lambda>site. [[None, Some 1], [Some 0, Some 2], [Some 1, Some 3], [Some 2, None]] ! site"
  let ?f = "\<lparr>num_sites = 4, is_valid = [False, True, True, True], hoppings = ?hop\<rparr>"
  let ?f' = "\<lparr>num_sites = 4, is_valid = [False, False, False, False], hoppings = ?hop\<rparr>"
  have len: "length (is_valid ?f) = num_sites ?f" by simp
  have range: "\<forall>site<num_sites ?f. \<forall>j\<in>set (in_bounds (hoppings ?f site)). j < num_sites ?f"
    by (simp add: numeral_eq_Suc less_Suc_eq all_conj_distrib)
  have e: "remove_dangling 4 ?f 2 = Some (?f', 7, 3)"
    by (simp add: remove_dangling_def count_neighbors_def upt_rec numeral_eq_Suc)
  from remove_dangling_terminates [OF len range, of 2] obtain f' calls recursive where
    a: "\<forall>depth\<ge>num_sites ?f. remove_dangling depth ?f 2 = Some (f', calls, recursive)"
    by blast
  from a have "remove_dangling 4 ?f 2 = Some (f', calls, recursive)" by simp
  with e have "f' = ?f'" "calls = 7" "recursive = 3" by simp_all
  moreover from a have "remove_dangling 9 ?f 2 = Some (f', calls, recursive)" by simp
  ultimately have "remove_dangling 9 ?f 2 = Some (?f', 7, 3)" by simp
  with e show ?thesis by blast
qed

text \<open>
  Claim C10 as stated fails in its bound on the total number of calls. On a chain of
  four sites of which the first is invalid, with \<open>min_neighbors = 2\<close>, the loop calls
  \<open>clear_neighbors\<close> on the first site, which marks the other three invalid in three
  recursive calls, and then once more on each of the three, which return at once: seven
  calls on four sites.
\<close>

theorem remove_dangling_calls_counterexample:
  "remove_dangling 4
      \<lparr>num_sites = 4, is_valid = [False, True, True, True],
       hoppings = (\<lambda>site. [[None, Some 1], [Some 0, Some 2], [Some 1, Some 3], [Some 2, None]] ! site)\<rparr> 2
   = Some (\<lparr>num_sites = 4, is_valid = [False, False, False, False],
       hoppings = (\<lambda>site. [[None, Some 1], [Some 0, Some 2], [Some 1, Some 3], [Some 2, None]] ! site)\<rparr>,
       7, 3)
   \<and> \<not> (7::nat) \<le> num_sites
      \<lparr>num_sites = 4, is_valid = [False, True, True, True],
       hoppings = (\<lambda>site. [[None, Some 1], [Some 0, Some 2], [Some 1, Some 3], [Some 2, None]] ! site)\<rparr>"
  by (simp add: remove_dangling_def count_neighbors_def upt_rec numeral_eq_Suc)

section \<open>Properties of the KPM engine\<close>

subsection \<open>Sizes of the optimized Hamiltonian\<close>

lemma set_add_new: "set (add_new q js) = set q \<union> set js"
  by (induction js arbitrary: q) auto

lemma distinct_add_new: "distinct q \<Longrightarrow> distinct (add_new q js)"
  by (induction js arbitrary: q) auto

lemma length_add_new: "length q \<le> length (add_new q js)"
proof (induction js arbitrary: q)
  case Nil
  show ?case by simp
next
  case (Cons j js)
  have "length q \<le> length (if j \<in> set q then q else q @ [j])" by simp
  also have "\<dots> \<le> length (add_new (if j \<in> set q then q else q @ [j]) js)" by (rule Cons.IH)
  finally show ?case by simp
qed

lemma reachable_inv:
  "\<forall>s\<in>set seeds. s < dimension m \<Longrightarrow>
   distinct (reachable m seeds k) \<and> set (reachable m seeds k) \<subseteq> {..<dimension m}"
proof (induction k)
  case 0
  then show ?case by (auto simp: distinct_add_new set_add_new)
next
  case (Suc k)
  then show ?case by (auto simp: grow_def distinct_add_new set_add_new)
qed

lemma length_reachable_le:
  assumes "\<forall>s\<in>set seeds. s < dimension m"
  shows "length (reachable m seeds k) \<le> dimension m"
proof -
  from reachable_inv [OF assms, of k]
  have d: "distinct (reachable m seeds k)"
    and s: "set (reachable m seeds k) \<subseteq> {..<dimension m}" by simp_all
  from d have "length (reachable m seeds k) = card (set (reachable m seeds k))"
    by (simp add: distinct_card)
  also from s have "\<dots> \<le> card {..<dimension m}" by (intro card_mono) simp_all
  finally show ?thesis by simp
qed

lemma length_reachable_mono:
  "i \<le> j \<Longrightarrow> length (reachable m seeds i) \<le> length (reachable m seeds j)"
proof (induction j)
  case 0
  then show ?case by simp
next
  case (Suc j)
  show ?case
  proof (cases "i = Suc j")
    case True
    then show ?thesis by simp
  next
    case False
    with Suc have "length (reachable m seeds i) \<le> length (reachable m seeds j)" by simp
    also have "\<dots> \<le> length (reachable m seeds (Suc j))"
      by (simp add: grow_def length_add_new)
    finally show ?thesis .
  qed
qed

lemma sorted_map_upt:
  "(\<And>i j. i \<le> j \<Longrightarrow> f i \<le> (f j :: nat)) \<Longrightarrow> sorted (map f [0..<n])"
  by (simp add: sorted_map sorted_wrt_iff_nth_less)

text \<open>
  Claim C7. For every optimized Hamiltonian state that \<open>optimize_for\<close> builds, called
  directly or by \<open>MakeOH\<close>, the sequence of sizes that \<open>ReturnSizes\<close> exposes is non-decreasing, each entry being at
  most the next, and every entry is at most the dimension of the matrix.
\<close>

theorem sizes_nondecreasing_bounded:
  assumes "optimize_for m seed_indices scaling = Inr oh \<or> MakeOH i m scaling = Inr oh"
  shows "sorted (ReturnSizes oh) \<and> (\<forall>x\<in>set (ReturnSizes oh). x \<le> dimension m)
         \<and> (\<forall>k. Suc k < length (ReturnSizes oh) \<longrightarrow> ReturnSizes oh ! k \<le> ReturnSizes oh ! Suc k)"
proof -
  from assms obtain idx where built: "optimize_for m idx scaling = Inr oh"
    by (auto simp: MakeOH_def Let_def)
  let ?seeds = "row idx # columns idx"
  from built have ok: "\<not> list_ex (\<lambda>s. dimension m \<le> s) ?seeds"
    and oh: "sizes oh = map (\<lambda>k. length (reachable m ?seeds k)) [0..<Suc (dimension m)]"
    by (auto simp: optimize_for_def Let_def split: if_splits)
  from ok have seeds: "\<forall>s\<in>set ?seeds. s < dimension m"
    by (auto simp: list_ex_iff)
  have s: "sorted (sizes oh)"
    unfolding oh by (rule sorted_map_upt) (rule length_reachable_mono)
  have b: "\<forall>x\<in>set (sizes oh). x \<le> dimension m"
    unfolding oh using length_reachable_le [OF seeds] by auto
  have "\<forall>k. Suc k < length (sizes oh) \<longrightarrow> sizes oh ! k \<le> sizes oh ! Suc k"
    using s by (simp add: sorted_iff_nth_Suc)
  with s b show ?thesis by (simp add: ReturnSizes_def)
qed

theorem sizes_nondecreasing_bounded_witness:
  "optimize_for \<lparr>dimension = 5, nonzeros = (\<lambda>i. [[1], [0, 2], [1, 3], [2, 4], [3]] ! i)\<rparr>
        \<lparr>row = 0, columns = []\<rparr> ()
     = Inr \<lparr>reorder = [0, 1, 2, 3, 4], sizes = [1, 2, 3, 4, 5, 5]\<rparr>
   \<and> sorted (ReturnSizes \<lparr>reorder = [0, 1, 2, 3, 4], sizes = [1, 2, 3, 4, 5, 5]\<rparr>)
   \<and> ReturnSizes \<lparr>reorder = [0, 1, 2, 3, 4], sizes = [1, 2, 3, 4, 5, 5]\<rparr> ! 4 \<le> 5"
proof -
  let ?m = "\<lparr>dimension = 5, nonzeros = (\<lambda>i. [[1], [0, 2], [1, 3], [2, 4], [3]] ! i)\<rparr>"
  let ?oh = "\<lparr>reorder = [0, 1, 2, 3, 4], sizes = [1, 2, 3, 4, 5, 5]\<rparr>"
  have e: "optimize_for ?m \<lparr>row = 0, columns = []\<rparr> () = Inr ?oh"
    by (simp add: optimize_for_def grow_def upt_rec numeral_eq_Suc)
  note t = sizes_nondecreasing_bounded [OF disjI1, OF e]
  from t have s: "sorted (ReturnSizes ?oh)" by blast
  have "ReturnSizes ?oh ! 4 \<in> set (ReturnSizes ?oh)" by (simp add: ReturnSizes_def)
  with t have "ReturnSizes ?oh ! 4 \<le> dimension ?m" by blast
  with e s show ?thesis by simp
qed

subsection \<open>Replacing the model\<close>

text \<open>
  Claim C6. Replacing the model of an engine leaves no cached optimized Hamiltonian
  state and no cached bounds, whatever was cached before. The next computation estimates
  the bounds of the new matrix, builds the state for its seed indices from the new
  matrix (the count of built states goes up by one), caches these and reconstructs the
  result from that state. An engine whose cache holds values of its bound matrix keeps
  such a cache through a computation, and the result comes from a state of the bound
  matrix.
\<close>

theorem set_model_invalidates_cache:
  "optimized (set_model kpm m') = [] \<and> bounds (set_model kpm m') = None
   \<and> get_model (set_model kpm m') = m'
   \<and> cache_valid N (set_model kpm m')
   \<and> fst (calc_ldos N (set_model kpm m') q)
       = reconstruct N (optimize N m' (resolve N m' q) (estimate N m')) q
   \<and> optimized (snd (calc_ldos N (set_model kpm m') q))
       = [(resolve N m' q, optimize N m' (resolve N m' q) (estimate N m'))]
   \<and> bounds (snd (calc_ldos N (set_model kpm m') q)) = Some (estimate N m')
   \<and> builds (snd (calc_ldos N (set_model kpm m') q)) = Suc (builds kpm)
   \<and> (cache_valid N kpm \<longrightarrow>
        cache_valid N (snd (calc_ldos N kpm q))
        \<and> fst (calc_ldos N kpm q)
            = reconstruct N (optimize N (model kpm) (resolve N (model kpm) q)
                               (estimate N (model kpm))) q)"
proof -
  have a: "optimized (set_model kpm m') = [] \<and> bounds (set_model kpm m') = None
      \<and> get_model (set_model kpm m') = m' \<and> cache_valid N (set_model kpm m')"
    by (simp add: set_model_def get_model_def cache_valid_def)
  have b: "calc_ldos N (set_model kpm m') q =
      (reconstruct N (optimize N m' (resolve N m' q) (estimate N m')) q,
       kpm\<lparr>model := m', bounds := Some (estimate N m'),
           optimized := [(resolve N m' q, optimize N m' (resolve N m' q) (estimate N m'))],
           builds := Suc (builds kpm)\<rparr>)"
    by (simp add: calc_ldos_def set_model_def Let_def)
  have c: "cache_valid N kpm \<longrightarrow>
        cache_valid N (snd (calc_ldos N kpm q))
        \<and> fst (calc_ldos N kpm q)
            = reconstruct N (optimize N (model kpm) (resolve N (model kpm) q)
                               (estimate N (model kpm))) q"
  proof
    assume v: "cache_valid N kpm"
    let ?m = "model kpm"
    let ?idx = "resolve N ?m q"
    have bd: "(case bounds kpm of Some b \<Rightarrow> b | None \<Rightarrow> estimate N ?m) = estimate N ?m"
      using v by (auto simp: cache_valid_def)
    show "cache_valid N (snd (calc_ldos N kpm q))
        \<and> fst (calc_ldos N kpm q) = reconstruct N (optimize N ?m ?idx (estimate N ?m)) q"
    proof (cases "map_of (optimized kpm) ?idx")
      case None
      then show ?thesis using v bd by (auto simp: calc_ldos_def Let_def cache_valid_def)
    next
      case (Some oh)
      then have "(?idx, oh) \<in> set (optimized kpm)" by (rule map_of_SomeD)
      with v have "oh = optimize N ?m ?idx (estimate N ?m)" by (auto simp: cache_valid_def)
      with Some show ?thesis using v bd by (auto simp: calc_ldos_def Let_def cache_valid_def)
    qed
  qed
  from a b c show ?thesis by simp
qed

theorem set_model_invalidates_cache_witness:
  "cache_valid (readout :: (nat, nat, nat, unit, nat) numerics) (snd (calc_ldos readout (make_kpm 1) ()))
   \<and> fst (calc_ldos (readout :: (nat, nat, nat, unit, nat) numerics)
            (set_model (snd (calc_ldos readout (make_kpm 1) ())) 2) ()) = 2
   \<and> fst (calc_ldos (readout :: (nat, nat, nat, unit, nat) numerics)
            (snd (calc_ldos readout (make_kpm 1) ())) ()) = 1"
proof -
  let ?N = "readout :: (nat, nat, nat, unit, nat) numerics"
  let ?k0 = "make_kpm 1 :: (nat, nat, nat) KPM"
  let ?k1 = "snd (calc_ldos ?N ?k0 ())"
  have v0: "cache_valid ?N ?k0" by (simp add: cache_valid_def make_kpm_def)
  from set_model_invalidates_cache [of ?k0 1 ?N "()"] v0
  have v1: "cache_valid ?N ?k1" by blast
  from set_model_invalidates_cache [of ?k1 2 ?N "()"]
  have "fst (calc_ldos ?N (set_model ?k1 2) ())
          = reconstruct ?N (optimize ?N 2 (resolve ?N 2 ()) (estimate ?N 2)) ()" by blast
  then have a: "fst (calc_ldos ?N (set_model ?k1 2) ()) = 2" by (simp add: readout_def)
  from set_model_invalidates_cache [of ?k1 1 ?N "()"] v1
  have "fst (calc_ldos ?N ?k1 ())
          = reconstruct ?N (optimize ?N (model ?k1) (resolve ?N (model ?k1) ())
                               (estimate ?N (model ?k1))) ()" by blast
  then have b: "fst (calc_ldos ?N ?k1 ()) = 1"
    by (simp add: readout_def calc_ldos_def make_kpm_def)
  from v1 a b show ?thesis by blast
qed


subsection \<open>Deferred requests\<close>

text \<open>
  Claim C2, amended. A deferred LDOS request holds the engine object it was made from and
  the four arguments as they were at its creation. Executing it returns the result of
  \<open>calc_ldos\<close> for these arguments on the engine as it is in the heap at the time of
  the execution, and stores the engine that the computation leaves. When the engine is
  then as it was at the creation, the result is that of the immediate execution at the
  creation.
\<close>

theorem deferred_ldos_uses_engine_at_execution:
  "solver (deferred_ldos calc self energy broadening position sublattice) = self
   \<and> compute (deferred_ldos calc self energy broadening position sublattice) heap
       = (fst (calc (heap self) energy broadening position sublattice),
          heap(self := snd (calc (heap self) energy broadening position sublattice)))
   \<and> (heap self = earlier self \<longrightarrow>
        fst (compute (deferred_ldos calc self energy broadening position sublattice) heap)
          = fst (calc (earlier self) energy broadening position sublattice))"
  by (simp add: deferred_ldos_def Let_def split_beta)

theorem deferred_ldos_uses_engine_at_execution_witness:
  "fst (compute (deferred_ldos readout_ldos 0 () () () ''A'')
          ((\<lambda>a. make_kpm 1)(1 := make_kpm 5)))
     = fst (readout_ldos (make_kpm 1) () () () ''A'')"
proof -
  let ?earlier = "\<lambda>a::nat. make_kpm 1 :: (nat, nat, nat) KPM"
  let ?heap = "?earlier(1 := make_kpm 5)"
  have "?heap 0 = ?earlier 0" by simp
  with deferred_ldos_uses_engine_at_execution
         [where calc = readout_ldos and self = 0 and heap = ?heap and earlier = ?earlier
            and energy = "()" and broadening = "()" and position = "()"
            and sublattice = "''A''"]
  show ?thesis by simp
qed


text \<open>
  Claim C2 as stated fails: a request is made on an engine bound to the matrix \<open>1\<close>, the
  model of the engine is replaced by the matrix \<open>2\<close>, and the request is executed. Its
  result is not the result of the immediate execution at the creation.
\<close>

theorem deferred_ldos_counterexample:
  "fst (compute (deferred_ldos readout_ldos 0 () () () ''A'')
          ((\<lambda>a. make_kpm 1)(0 := set_model (make_kpm 1) 2)))
     \<noteq> fst (readout_ldos (make_kpm 1) () () () ''A'')"
  by (simp add: deferred_ldos_def readout_ldos_def calc_ldos_def readout_def make_kpm_def
      set_model_def Let_def)


end
